theory Spec2Isabelle
  imports Main
begin

section \<open>The element type \<open>T\<close>\<close>

text \<open>
  \<open>vector.h\<close> is a template over the element type \<open>T\<close>. What the container needs to
  know about \<open>T\<close> is collected in a record: the two static capabilities the code
  branches on (\<open>std::is_nothrow_move_constructible_v<T>\<close> and
  \<open>std::is_copy_constructible_v<T>\<close>), \<open>sizeof(T)\<close>, the state a moved-from object is left
  in, the value of \<open>T()\<close>, and which calls throw. Every call that can throw is an \<open>event\<close>;
  \<open>throws T e w\<close> tells whether the call \<open>e\<close> throws in the environment state \<open>w\<close> (for
  instance a call counter), and \<open>advance T e w\<close> is the environment after the call.
  A copy that succeeds yields a value equal to its source, a move yields the source's
  value and leaves \<open>moved_from T x\<close> behind. Destructors do not throw.
\<close>

datatype 'a event =
    Alloc nat
  | Construct 'a
  | CopyConstruct 'a
  | MoveConstruct 'a
  | CopyAssign 'a
  | MoveAssign 'a
  | ValueConstruct

record ('a, 'w) elem_type =
  nothrow_move_constructible :: bool
  copy_constructible :: bool
  sizeof_T :: nat
  throws :: "'a event \<Rightarrow> 'w \<Rightarrow> bool"
  advance :: "'a event \<Rightarrow> 'w \<Rightarrow> 'w"
  moved_from :: "'a \<Rightarrow> 'a"
  value_initialized :: 'a

text \<open>
  How a call ends: it returns, it throws (the state at the throw is kept, since the
  caller sees it), it calls \<open>std::terminate\<close> (an exception leaving a \<open>noexcept\<close>
  function), or its behaviour is undefined (a failed \<open>assert\<close>, or a precondition of the
  language or of the standard library broken).
\<close>

datatype ('s, 'e) result = Returned 's | Threw 'e | Terminated | Undefined

section \<open>Blocks of raw memory\<close>

text \<open>
  A block is the memory \<open>buffer_\<close> points to: one slot per element, \<open>None\<close> for raw
  (uninitialised) memory and \<open>Some x\<close> for a live object of value \<open>x\<close>. A \<open>T*\<close> into a
  block is an index. \<open>nullptr\<close> is the block without slots.
\<close>

type_synonym 'a block = "'a option list"

definition live_at :: "'a block \<Rightarrow> nat \<Rightarrow> 'a option" where
  "live_at b i = (if i < length b then b ! i else None)"

text \<open>\<open>std::destroy_n(first, n)\<close>: ends the lifetime of \<open>n\<close> live objects; \<open>None\<close> is
  undefined behaviour (a slot that holds no object).\<close>

fun destroy_n :: "'a block \<Rightarrow> nat \<Rightarrow> nat \<Rightarrow> 'a block option" where
  "destroy_n b first 0 = Some b"
| "destroy_n b first (Suc n) =
     (case live_at b first of
        None \<Rightarrow> None
      | Some x \<Rightarrow> destroy_n (b[first := None]) (Suc first) n)"

text \<open>
  \<open>std::uninitialized_copy_n(first, n, d_first)\<close>: copy-constructs into raw memory, front
  to back; when a copy throws, the objects built so far are destroyed and the exception
  goes on. \<open>current\<close> is the loop's output pointer.
\<close>

fun uninitialized_copy_loop ::
  "('a, 'w) elem_type \<Rightarrow> 'a block \<Rightarrow> nat \<Rightarrow> nat \<Rightarrow> 'a block \<Rightarrow> nat \<Rightarrow> nat \<Rightarrow> 'w
     \<Rightarrow> ('a block \<times> 'w, 'a block \<times> 'w) result" where
  "uninitialized_copy_loop T src first 0 dst d_first current w = Returned (dst, w)"
| "uninitialized_copy_loop T src first (Suc n) dst d_first current w =
     (case live_at src first of
        None \<Rightarrow> Undefined
      | Some x \<Rightarrow>
          if length dst \<le> current then Undefined
          else if throws T (CopyConstruct x) w then
            (case destroy_n dst d_first (current - d_first) of
               None \<Rightarrow> Undefined
             | Some dst' \<Rightarrow> Threw (dst', advance T (CopyConstruct x) w))
          else uninitialized_copy_loop T src (Suc first) n (dst[current := Some x])
                 d_first (Suc current) (advance T (CopyConstruct x) w))"

definition uninitialized_copy_n ::
  "('a, 'w) elem_type \<Rightarrow> 'a block \<Rightarrow> nat \<Rightarrow> nat \<Rightarrow> 'a block \<Rightarrow> nat \<Rightarrow> 'w
     \<Rightarrow> ('a block \<times> 'w, 'a block \<times> 'w) result" where
  "uninitialized_copy_n T src first n dst d_first w =
     uninitialized_copy_loop T src first n dst d_first d_first w"

text \<open>
  \<open>std::uninitialized_move_n(first, n, d_first)\<close>: the same with move construction; each
  source object is left in its moved-from state. The result holds the source block too.
\<close>

fun uninitialized_move_loop ::
  "('a, 'w) elem_type \<Rightarrow> 'a block \<Rightarrow> nat \<Rightarrow> nat \<Rightarrow> 'a block \<Rightarrow> nat \<Rightarrow> nat \<Rightarrow> 'w
     \<Rightarrow> ('a block \<times> 'a block \<times> 'w, 'a block \<times> 'a block \<times> 'w) result" where
  "uninitialized_move_loop T src first 0 dst d_first current w = Returned (src, dst, w)"
| "uninitialized_move_loop T src first (Suc n) dst d_first current w =
     (case live_at src first of
        None \<Rightarrow> Undefined
      | Some x \<Rightarrow>
          if length dst \<le> current then Undefined
          else if throws T (MoveConstruct x) w then
            (case destroy_n dst d_first (current - d_first) of
               None \<Rightarrow> Undefined
             | Some dst' \<Rightarrow> Threw (src, dst', advance T (MoveConstruct x) w))
          else uninitialized_move_loop T (src[first := Some (moved_from T x)]) (Suc first) n
                 (dst[current := Some x]) d_first (Suc current)
                 (advance T (MoveConstruct x) w))"

definition uninitialized_move_n ::
  "('a, 'w) elem_type \<Rightarrow> 'a block \<Rightarrow> nat \<Rightarrow> nat \<Rightarrow> 'a block \<Rightarrow> nat \<Rightarrow> 'w
     \<Rightarrow> ('a block \<times> 'a block \<times> 'w, 'a block \<times> 'a block \<times> 'w) result" where
  "uninitialized_move_n T src first n dst d_first w =
     uninitialized_move_loop T src first n dst d_first d_first w"

text \<open>\<open>std::uninitialized_value_construct_n(first, n)\<close>: builds \<open>n\<close> objects \<open>T()\<close> in raw
  memory, with the same clean-up when one of them throws.\<close>

fun uninitialized_value_construct_loop ::
  "('a, 'w) elem_type \<Rightarrow> 'a block \<Rightarrow> nat \<Rightarrow> nat \<Rightarrow> nat \<Rightarrow> 'w
     \<Rightarrow> ('a block \<times> 'w, 'a block \<times> 'w) result" where
  "uninitialized_value_construct_loop T b first current 0 w = Returned (b, w)"
| "uninitialized_value_construct_loop T b first current (Suc n) w =
     (if length b \<le> current then Undefined
      else if throws T ValueConstruct w then
        (case destroy_n b first (current - first) of
           None \<Rightarrow> Undefined
         | Some b' \<Rightarrow> Threw (b', advance T ValueConstruct w))
      else uninitialized_value_construct_loop T (b[current := Some (value_initialized T)])
             first (Suc current) n (advance T ValueConstruct w))"

definition uninitialized_value_construct_n ::
  "('a, 'w) elem_type \<Rightarrow> 'a block \<Rightarrow> nat \<Rightarrow> nat \<Rightarrow> 'w
     \<Rightarrow> ('a block \<times> 'w, 'a block \<times> 'w) result" where
  "uninitialized_value_construct_n T b first n w =
     uninitialized_value_construct_loop T b first first n w"

section \<open>\<open>RawMemory\<close>\<close>

record 'a RawMemory =
  buffer_m :: "'a block"
  capacity_m :: nat

text \<open>
  \<open>Allocate(n)\<close> calls \<open>operator new(n * sizeof(T))\<close>, and gives \<open>nullptr\<close> for \<open>n = 0\<close>. The
  product is computed in \<open>size_t\<close>, taken here to be 64 bits wide.

  The constructor \<open>RawMemory(size_t capacity)\<close> is called in two situations. In the copy
  constructor and in \<open>Emplace\<close> the count is the size of a block that exists, or twice
  that size: the product exceeds \<open>SIZE_MAX\<close> only when the existing block fills half of
  the address space or more. For these calls \<open>Allocate\<close> is modelled without the
  reduction: \<open>operator new\<close> delivers \<open>n\<close> raw slots or throws.
\<close>

definition Allocate :: "('a, 'w) elem_type \<Rightarrow> nat \<Rightarrow> 'w \<Rightarrow> ('a block \<times> 'w, 'w) result" where
  "Allocate T n w =
     (if n \<noteq> 0 then
        (if throws T (Alloc n) w then Threw (advance T (Alloc n) w)
         else Returned (replicate n None, advance T (Alloc n) w))
      else Returned ([], w))"

definition RawMemory_default :: "'a RawMemory" where
  "RawMemory_default = \<lparr>buffer_m = [], capacity_m = 0\<rparr>"

definition RawMemory_sized ::
  "('a, 'w) elem_type \<Rightarrow> nat \<Rightarrow> 'w \<Rightarrow> ('a RawMemory \<times> 'w, 'w) result" where
  "RawMemory_sized T capacity w =
     (case Allocate T capacity w of
        Returned (b, w') \<Rightarrow> Returned (\<lparr>buffer_m = b, capacity_m = capacity\<rparr>, w')
      | Threw w' \<Rightarrow> Threw w'
      | Terminated \<Rightarrow> Terminated
      | Undefined \<Rightarrow> Undefined)"

text \<open>
  In \<open>Reserve\<close>, \<open>Resize\<close> and \<open>Vector(size_t)\<close> the count comes from the caller, and any value
  of \<open>size_t\<close> can arrive. There the product is reduced as the source computes it:
  \<open>operator new\<close> is asked for \<open>n * sizeof(T) mod 2^64\<close> bytes, the block it delivers has
  room for that many bytes divided by \<open>sizeof(T)\<close> objects, and \<open>capacity_\<close> becomes \<open>n\<close>
  all the same.
\<close>

definition SIZE_MAX :: nat where
  "SIZE_MAX = 2 ^ 64 - 1"

definition Allocate_size_t :: "('a, 'w) elem_type \<Rightarrow> nat \<Rightarrow> 'w \<Rightarrow> ('a block \<times> 'w, 'w) result" where
  "Allocate_size_t T n w =
     (if n \<noteq> 0 then
        (if throws T (Alloc n) w then Threw (advance T (Alloc n) w)
         else Returned
                (replicate ((n * sizeof_T T) mod (SIZE_MAX + 1) div sizeof_T T) None,
                 advance T (Alloc n) w))
      else Returned ([], w))"

definition RawMemory_sized_size_t ::
  "('a, 'w) elem_type \<Rightarrow> nat \<Rightarrow> 'w \<Rightarrow> ('a RawMemory \<times> 'w, 'w) result" where
  "RawMemory_sized_size_t T capacity w =
     (case Allocate_size_t T capacity w of
        Returned (b, w') \<Rightarrow> Returned (\<lparr>buffer_m = b, capacity_m = capacity\<rparr>, w')
      | Threw w' \<Rightarrow> Threw w'
      | Terminated \<Rightarrow> Terminated
      | Undefined \<Rightarrow> Undefined)"

text \<open>The \<open>assert\<close> of \<open>operator+\<close> and that of \<open>operator[]\<close>; the pointer they return is
  the offset itself.\<close>

definition assert_plus :: "'a RawMemory \<Rightarrow> nat \<Rightarrow> bool" where
  "assert_plus m offset \<longleftrightarrow> offset \<le> capacity_m m"

definition assert_index :: "'a RawMemory \<Rightarrow> nat \<Rightarrow> bool" where
  "assert_index m index \<longleftrightarrow> index < capacity_m m"

definition RawMemory_Swap :: "'a RawMemory \<Rightarrow> 'a RawMemory \<Rightarrow> 'a RawMemory \<times> 'a RawMemory" where
  "RawMemory_Swap this other =
     (let (b1, b2) = (buffer_m other, buffer_m this);
          this = this\<lparr>buffer_m := b1\<rparr>; other = other\<lparr>buffer_m := b2\<rparr>;
          (c1, c2) = (capacity_m other, capacity_m this);
          this = this\<lparr>capacity_m := c1\<rparr>; other = other\<lparr>capacity_m := c2\<rparr>
      in (this, other))"

section \<open>\<open>Vector\<close>\<close>

record 'a Vector =
  data_m :: "'a RawMemory"
  size_m :: nat

definition Size :: "'a Vector \<Rightarrow> nat" where
  "Size v = size_m v"

definition Capacity :: "'a Vector \<Rightarrow> nat" where
  "Capacity v = capacity_m (data_m v)"

text \<open>The elements a caller can observe, \<open>v[0], ..., v[Size() - 1]\<close>.\<close>

definition elems :: "'a Vector \<Rightarrow> 'a list" where
  "elems v = map the (take (size_m v) (buffer_m (data_m v)))"

text \<open>The invariant of the data model: the block has \<open>capacity_\<close> slots, \<open>size_\<close> does
  not exceed it, the slots below \<open>size_\<close> hold live objects and the others are raw.\<close>

definition Vector_inv :: "'a Vector \<Rightarrow> bool" where
  "Vector_inv v \<longleftrightarrow>
     length (buffer_m (data_m v)) = capacity_m (data_m v) \<and>
     size_m v \<le> capacity_m (data_m v) \<and>
     list_all (\<lambda>s. s \<noteq> None) (take (size_m v) (buffer_m (data_m v))) \<and>
     list_all (\<lambda>s. s = None) (drop (size_m v) (buffer_m (data_m v)))"

text \<open>A write through \<open>data_\<close> into the block.\<close>

definition set_buffer :: "'a Vector \<Rightarrow> 'a block \<Rightarrow> 'a Vector" where
  "set_buffer v b = v\<lparr>data_m := (data_m v)\<lparr>buffer_m := b\<rparr>\<rparr>"

text \<open>The end of \<open>Reserve\<close> and of the growth path of \<open>Emplace\<close>: \<open>data_.Swap(new_data)\<close>,
  then \<open>std::destroy_n\<close> of the \<open>size_\<close> old elements, now in \<open>new_data\<close>.\<close>

definition commit ::
  "'a Vector \<Rightarrow> 'a block \<Rightarrow> 'a RawMemory \<Rightarrow> 'a block \<Rightarrow> 'w
     \<Rightarrow> ('a Vector \<times> 'w, 'a Vector \<times> 'w) result" where
  "commit v old new_data new w =
     (case RawMemory_Swap ((data_m v)\<lparr>buffer_m := old\<rparr>) (new_data\<lparr>buffer_m := new\<rparr>) of
        (d, new_data) \<Rightarrow>
          (case destroy_n (buffer_m new_data) 0 (size_m v) of
             None \<Rightarrow> Undefined
           | Some freed \<Rightarrow> Returned (v\<lparr>data_m := d\<rparr>, w)))"

text \<open>
  \<open>Reserve\<close>. The new block is a local: when the population throws, its destructor frees
  it and nothing of it is left in the result.
\<close>

definition Reserve ::
  "('a, 'w) elem_type \<Rightarrow> nat \<Rightarrow> 'a Vector \<Rightarrow> 'w \<Rightarrow> ('a Vector \<times> 'w, 'a Vector \<times> 'w) result" where
  "Reserve T new_capacity v w =
     (if new_capacity \<le> capacity_m (data_m v) then Returned (v, w)
      else
        (case RawMemory_sized_size_t T new_capacity w of
           Threw w1 \<Rightarrow> Threw (v, w1)
         | Terminated \<Rightarrow> Terminated
         | Undefined \<Rightarrow> Undefined
         | Returned (new_data, w1) \<Rightarrow>
             if nothrow_move_constructible T \<or> \<not> copy_constructible T then
               (case uninitialized_move_n T (buffer_m (data_m v)) 0 (size_m v)
                       (buffer_m new_data) 0 w1 of
                  Returned (old, new, w2) \<Rightarrow> commit v old new_data new w2
                | Threw (old, new, w2) \<Rightarrow> Threw (set_buffer v old, w2)
                | Terminated \<Rightarrow> Terminated
                | Undefined \<Rightarrow> Undefined)
             else
               (case uninitialized_copy_n T (buffer_m (data_m v)) 0 (size_m v)
                       (buffer_m new_data) 0 w1 of
                  Returned (new, w2) \<Rightarrow> commit v (buffer_m (data_m v)) new_data new w2
                | Threw (new, w2) \<Rightarrow> Threw (v, w2)
                | Terminated \<Rightarrow> Terminated
                | Undefined \<Rightarrow> Undefined)))"

text \<open>
  The algorithms that assign to live objects inside one block.
  \<open>std::move_backward(first, last, d_last)\<close> runs from the back: the object before \<open>last\<close>
  is move-assigned to the one before \<open>d_last\<close>. \<open>n\<close> is \<open>last - first\<close>. A throwing assignment
  ends the loop where it is.
\<close>

fun move_backward_loop ::
  "('a, 'w) elem_type \<Rightarrow> 'a block \<Rightarrow> nat \<Rightarrow> nat \<Rightarrow> nat \<Rightarrow> 'w
     \<Rightarrow> ('a block \<times> 'w, 'a block \<times> 'w) result" where
  "move_backward_loop T b first 0 d_last w = Returned (b, w)"
| "move_backward_loop T b first (Suc n) d_last w =
     (case live_at b (first + n) of
        None \<Rightarrow> Undefined
      | Some x \<Rightarrow>
          if d_last = 0 then Undefined
          else (case live_at b (d_last - 1) of
                  None \<Rightarrow> Undefined
                | Some y \<Rightarrow>
                    if throws T (MoveAssign x) w then Threw (b, advance T (MoveAssign x) w)
                    else move_backward_loop T
                           (b[first + n := Some (moved_from T x), d_last - 1 := Some x])
                           first n (d_last - 1) (advance T (MoveAssign x) w)))"

definition move_backward ::
  "('a, 'w) elem_type \<Rightarrow> 'a block \<Rightarrow> nat \<Rightarrow> nat \<Rightarrow> nat \<Rightarrow> 'w
     \<Rightarrow> ('a block \<times> 'w, 'a block \<times> 'w) result" where
  "move_backward T b first last_p d_last w =
     (if last_p < first then Undefined else move_backward_loop T b first (last_p - first) d_last w)"

text \<open>\<open>std::copy_backward(first, last, d_last)\<close>: the same with copy assignment; the
  sources keep their values.\<close>

fun copy_backward_loop ::
  "('a, 'w) elem_type \<Rightarrow> 'a block \<Rightarrow> nat \<Rightarrow> nat \<Rightarrow> nat \<Rightarrow> 'w
     \<Rightarrow> ('a block \<times> 'w, 'a block \<times> 'w) result" where
  "copy_backward_loop T b first 0 d_last w = Returned (b, w)"
| "copy_backward_loop T b first (Suc n) d_last w =
     (case live_at b (first + n) of
        None \<Rightarrow> Undefined
      | Some x \<Rightarrow>
          if d_last = 0 then Undefined
          else (case live_at b (d_last - 1) of
                  None \<Rightarrow> Undefined
                | Some y \<Rightarrow>
                    if throws T (CopyAssign x) w then Threw (b, advance T (CopyAssign x) w)
                    else copy_backward_loop T (b[d_last - 1 := Some x])
                           first n (d_last - 1) (advance T (CopyAssign x) w)))"

definition copy_backward ::
  "('a, 'w) elem_type \<Rightarrow> 'a block \<Rightarrow> nat \<Rightarrow> nat \<Rightarrow> nat \<Rightarrow> 'w
     \<Rightarrow> ('a block \<times> 'w, 'a block \<times> 'w) result" where
  "copy_backward T b first last_p d_last w =
     (if last_p < first then Undefined else copy_backward_loop T b first (last_p - first) d_last w)"

text \<open>\<open>std::move(first, last, d_first)\<close>, the algorithm: front to back, move assignment
  into the objects from \<open>d_first\<close> on.\<close>

fun move_loop ::
  "('a, 'w) elem_type \<Rightarrow> 'a block \<Rightarrow> nat \<Rightarrow> nat \<Rightarrow> nat \<Rightarrow> 'w
     \<Rightarrow> ('a block \<times> 'w, 'a block \<times> 'w) result" where
  "move_loop T b first 0 d_first w = Returned (b, w)"
| "move_loop T b first (Suc n) d_first w =
     (case live_at b first of
        None \<Rightarrow> Undefined
      | Some x \<Rightarrow>
          (case live_at b d_first of
             None \<Rightarrow> Undefined
           | Some y \<Rightarrow>
               if throws T (MoveAssign x) w then Threw (b, advance T (MoveAssign x) w)
               else move_loop T (b[first := Some (moved_from T x), d_first := Some x])
                      (Suc first) n (Suc d_first) (advance T (MoveAssign x) w)))"

definition move_range ::
  "('a, 'w) elem_type \<Rightarrow> 'a block \<Rightarrow> nat \<Rightarrow> nat \<Rightarrow> nat \<Rightarrow> 'w
     \<Rightarrow> ('a block \<times> 'w, 'a block \<times> 'w) result" where
  "move_range T b first last_p d_first w =
     (if last_p < first then Undefined else move_loop T b first (last_p - first) d_first w)"

subsection \<open>\<open>Emplace\<close>\<close>

text \<open>
  The arguments of \<open>Emplace\<close> are forwarded to a constructor of \<open>T\<close>: the copy constructor
  (\<open>Insert\<close> and \<open>PushBack\<close> of a \<open>const T&\<close>), the move constructor (of a \<open>T&&\<close>) or another
  one. In each case the model is given the value the constructor builds.
\<close>

datatype 'a ctor_args = ByCopy 'a | ByMove 'a | ByArgs 'a

fun constructed :: "'a ctor_args \<Rightarrow> 'a" where
  "constructed (ByCopy x) = x"
| "constructed (ByMove x) = x"
| "constructed (ByArgs x) = x"

fun ctor_event :: "'a ctor_args \<Rightarrow> 'a event" where
  "ctor_event (ByCopy x) = CopyConstruct x"
| "ctor_event (ByMove x) = MoveConstruct x"
| "ctor_event (ByArgs x) = Construct x"

text \<open>The first branch of \<open>EmplaceWMove\<close> and \<open>EmplaceWCopy\<close> up to the shift: \<open>tmp_val\<close> is
  built, then the last element is move-constructed into the raw slot behind it.\<close>

definition open_back ::
  "('a, 'w) elem_type \<Rightarrow> 'a ctor_args \<Rightarrow> 'a Vector \<Rightarrow> 'w
     \<Rightarrow> ('a block \<times> 'w, 'a Vector \<times> 'w) result" where
  "open_back T args v w =
     (if throws T (ctor_event args) w then Threw (v, advance T (ctor_event args) w)
      else if \<not> assert_plus (data_m v) (size_m v) then Undefined
      else if \<not> assert_index (data_m v) (size_m v - 1) then Undefined
      else
        (case live_at (buffer_m (data_m v)) (size_m v - 1) of
           None \<Rightarrow> Undefined
         | Some x \<Rightarrow>
             if length (buffer_m (data_m v)) \<le> size_m v then Undefined
             else if throws T (MoveConstruct x) (advance T (ctor_event args) w)
             then Threw (v, advance T (MoveConstruct x) (advance T (ctor_event args) w))
             else Returned
                    ((buffer_m (data_m v))
                       [size_m v - 1 := Some (moved_from T x), size_m v := Some x],
                     advance T (MoveConstruct x) (advance T (ctor_event args) w))))"

text \<open>The last statement of that branch, \<open>data_[num_pos] = std::move(tmp_val)\<close>.\<close>

definition assign_tmp ::
  "('a, 'w) elem_type \<Rightarrow> nat \<Rightarrow> 'a \<Rightarrow> 'a Vector \<Rightarrow> 'a block \<Rightarrow> 'w
     \<Rightarrow> ('a Vector \<times> 'w, 'a Vector \<times> 'w) result" where
  "assign_tmp T num_pos tmp_val v b w =
     (if \<not> assert_index (data_m v) num_pos then Undefined
      else
        (case live_at b num_pos of
           None \<Rightarrow> Undefined
         | Some y \<Rightarrow>
             if throws T (MoveAssign tmp_val) w
             then Threw (set_buffer v b, advance T (MoveAssign tmp_val) w)
             else Returned (set_buffer v (b[num_pos := Some tmp_val]),
                            advance T (MoveAssign tmp_val) w)))"

text \<open>The other branch: \<open>new (data_ + num_pos) T(args...)\<close>.\<close>

definition construct_in_place ::
  "('a, 'w) elem_type \<Rightarrow> nat \<Rightarrow> 'a ctor_args \<Rightarrow> 'a Vector \<Rightarrow> 'w
     \<Rightarrow> ('a Vector \<times> 'w, 'a Vector \<times> 'w) result" where
  "construct_in_place T num_pos args v w =
     (if \<not> assert_plus (data_m v) num_pos then Undefined
      else if length (buffer_m (data_m v)) \<le> num_pos then Undefined
      else if throws T (ctor_event args) w then Threw (v, advance T (ctor_event args) w)
      else Returned (set_buffer v ((buffer_m (data_m v))[num_pos := Some (constructed args)]),
                     advance T (ctor_event args) w))"

definition EmplaceWMove ::
  "('a, 'w) elem_type \<Rightarrow> nat \<Rightarrow> 'a ctor_args \<Rightarrow> 'a Vector \<Rightarrow> 'w
     \<Rightarrow> ('a Vector \<times> 'w, 'a Vector \<times> 'w) result" where
  "EmplaceWMove T num_pos args v w =
     (if size_m v > 0 \<and> num_pos \<noteq> size_m v then
        (case open_back T args v w of
           Undefined \<Rightarrow> Undefined
         | Terminated \<Rightarrow> Terminated
         | Threw e \<Rightarrow> Threw e
         | Returned (b1, w2) \<Rightarrow>
             if \<not> (assert_plus (data_m v) num_pos \<and> assert_plus (data_m v) (size_m v - 1)
                    \<and> assert_plus (data_m v) (size_m v))
             then Undefined
             else
               (case move_backward T b1 num_pos (size_m v - 1) (size_m v) w2 of
                  Undefined \<Rightarrow> Undefined
                | Terminated \<Rightarrow> Terminated
                | Threw (b2, w3) \<Rightarrow> Threw (set_buffer v b2, w3)
                | Returned (b2, w3) \<Rightarrow> assign_tmp T num_pos (constructed args) v b2 w3))
      else construct_in_place T num_pos args v w)"

definition EmplaceWCopy ::
  "('a, 'w) elem_type \<Rightarrow> nat \<Rightarrow> 'a ctor_args \<Rightarrow> 'a Vector \<Rightarrow> 'w
     \<Rightarrow> ('a Vector \<times> 'w, 'a Vector \<times> 'w) result" where
  "EmplaceWCopy T num_pos args v w =
     (if size_m v > 0 \<and> num_pos \<noteq> size_m v then
        (case open_back T args v w of
           Undefined \<Rightarrow> Undefined
         | Terminated \<Rightarrow> Terminated
         | Threw e \<Rightarrow> Threw e
         | Returned (b1, w2) \<Rightarrow>
             if \<not> (assert_plus (data_m v) num_pos \<and> assert_plus (data_m v) (size_m v - 1)
                    \<and> assert_plus (data_m v) (size_m v))
             then Undefined
             else
               (case copy_backward T b1 num_pos (size_m v - 1) (size_m v) w2 of
                  Undefined \<Rightarrow> Undefined
                | Terminated \<Rightarrow> Terminated
                | Threw (b2, w3) \<Rightarrow> Threw (set_buffer v b2, w3)
                | Returned (b2, w3) \<Rightarrow> assign_tmp T num_pos (constructed args) v b2 w3))
      else construct_in_place T num_pos args v w)"

text \<open>The end of \<open>Emplace\<close>: \<open>++size_\<close> and the \<open>assert\<close> of \<open>&data_[num_pos]\<close>. The
  iterator returned is \<open>begin() + num_pos\<close>.\<close>

definition Emplace_finish ::
  "nat \<Rightarrow> ('a Vector \<times> 'w, 'a Vector \<times> 'w) result \<Rightarrow> ('a Vector \<times> 'w, 'a Vector \<times> 'w) result" where
  "Emplace_finish num_pos r =
     (case r of
        Returned (v, w) \<Rightarrow>
          if assert_index (data_m v) num_pos
          then Returned (v\<lparr>size_m := size_m v + 1\<rparr>, w) else Undefined
      | Threw e \<Rightarrow> Threw e
      | Terminated \<Rightarrow> Terminated
      | Undefined \<Rightarrow> Undefined)"

text \<open>
  The growth path of \<open>Emplace\<close> after the new element is built: the elements before
  \<open>num_pos\<close> go to the front of the new block, those from \<open>num_pos\<close> on behind the new
  element, by move or by copy; then the blocks are swapped and the old elements
  destroyed.
\<close>

definition grow_by_move ::
  "('a, 'w) elem_type \<Rightarrow> nat \<Rightarrow> 'a Vector \<Rightarrow> 'a RawMemory \<Rightarrow> 'a block \<Rightarrow> 'w
     \<Rightarrow> ('a Vector \<times> 'w, 'a Vector \<times> 'w) result" where
  "grow_by_move T num_pos v new_data new0 w =
     (case uninitialized_move_n T (buffer_m (data_m v)) 0 num_pos new0 0 w of
        Undefined \<Rightarrow> Undefined
      | Terminated \<Rightarrow> Terminated
      | Threw (old1, new1, w1) \<Rightarrow> Threw (set_buffer v old1, w1)
      | Returned (old1, new1, w1) \<Rightarrow>
          if num_pos \<noteq> size_m v then
            if \<not> (assert_plus (data_m v) num_pos \<and> assert_plus new_data num_pos) then Undefined
            else
              (case uninitialized_move_n T old1 num_pos (size_m v - num_pos)
                      new1 (num_pos + 1) w1 of
                 Undefined \<Rightarrow> Undefined
               | Terminated \<Rightarrow> Terminated
               | Threw (old2, new2, w2) \<Rightarrow> Threw (set_buffer v old2, w2)
               | Returned (old2, new2, w2) \<Rightarrow> commit v old2 new_data new2 w2)
          else commit v old1 new_data new1 w1)"

definition grow_by_copy ::
  "('a, 'w) elem_type \<Rightarrow> nat \<Rightarrow> 'a Vector \<Rightarrow> 'a RawMemory \<Rightarrow> 'a block \<Rightarrow> 'w
     \<Rightarrow> ('a Vector \<times> 'w, 'a Vector \<times> 'w) result" where
  "grow_by_copy T num_pos v new_data new0 w =
     (case uninitialized_copy_n T (buffer_m (data_m v)) 0 num_pos new0 0 w of
        Undefined \<Rightarrow> Undefined
      | Terminated \<Rightarrow> Terminated
      | Threw (new1, w1) \<Rightarrow> Threw (v, w1)
      | Returned (new1, w1) \<Rightarrow>
          if num_pos \<noteq> size_m v then
            if \<not> (assert_plus (data_m v) num_pos \<and> assert_plus new_data num_pos) then Undefined
            else
              (case uninitialized_copy_n T (buffer_m (data_m v)) num_pos (size_m v - num_pos)
                      new1 (num_pos + 1) w1 of
                 Undefined \<Rightarrow> Undefined
               | Terminated \<Rightarrow> Terminated
               | Threw (new2, w2) \<Rightarrow> Threw (v, w2)
               | Returned (new2, w2) \<Rightarrow> commit v (buffer_m (data_m v)) new_data new2 w2)
          else commit v (buffer_m (data_m v)) new_data new1 w1)"

text \<open>
  \<open>Emplace(pos, args...)\<close>, with \<open>num_pos = std::distance(cbegin(), pos)\<close>; \<open>pos\<close> has to be
  an iterator of the vector, from \<open>cbegin()\<close> to \<open>cend()\<close>.
\<close>

definition Emplace ::
  "('a, 'w) elem_type \<Rightarrow> nat \<Rightarrow> 'a ctor_args \<Rightarrow> 'a Vector \<Rightarrow> 'w
     \<Rightarrow> ('a Vector \<times> 'w, 'a Vector \<times> 'w) result" where
  "Emplace T num_pos args v w =
     (if size_m v < num_pos then Undefined
      else if size_m v = Capacity v then
        (case RawMemory_sized T (if size_m v > 0 then size_m v * 2 else 1) w of
           Threw w1 \<Rightarrow> Threw (v, w1)
         | Terminated \<Rightarrow> Terminated
         | Undefined \<Rightarrow> Undefined
         | Returned (new_data, w1) \<Rightarrow>
             if \<not> assert_plus new_data num_pos then Undefined
             else if length (buffer_m new_data) \<le> num_pos then Undefined
             else if throws T (ctor_event args) w1 then Threw (v, advance T (ctor_event args) w1)
             else
               Emplace_finish num_pos
                 (if nothrow_move_constructible T \<or> \<not> copy_constructible T
                  then grow_by_move T num_pos v new_data
                         ((buffer_m new_data)[num_pos := Some (constructed args)])
                         (advance T (ctor_event args) w1)
                  else grow_by_copy T num_pos v new_data
                         ((buffer_m new_data)[num_pos := Some (constructed args)])
                         (advance T (ctor_event args) w1)))
      else
        Emplace_finish num_pos
          (if nothrow_move_constructible T \<or> \<not> copy_constructible T
           then EmplaceWMove T num_pos args v w
           else EmplaceWCopy T num_pos args v w))"

subsection \<open>The other members\<close>

text \<open>
  \<open>Erase(pos)\<close>; \<open>pos\<close> has to point at an element. The function is \<open>noexcept\<close>: an
  assignment that throws ends the program.
\<close>

definition Erase ::
  "('a, 'w) elem_type \<Rightarrow> nat \<Rightarrow> 'a Vector \<Rightarrow> 'w
     \<Rightarrow> ('a Vector \<times> 'w, 'a Vector \<times> 'w) result" where
  "Erase T num_pos v w =
     (if size_m v \<le> num_pos then Undefined
      else if \<not> (assert_plus (data_m v) num_pos \<and> assert_plus (data_m v) (size_m v)) then Undefined
      else
        (case move_range T (buffer_m (data_m v)) (num_pos + 1) (size_m v) num_pos w of
           Undefined \<Rightarrow> Undefined
         | Terminated \<Rightarrow> Terminated
         | Threw e \<Rightarrow> Terminated
         | Returned (b, w1) \<Rightarrow>
             (case destroy_n b (size_m v - 1) 1 of
                None \<Rightarrow> Undefined
              | Some b1 \<Rightarrow>
                  if assert_index (data_m v) num_pos
                  then Returned ((set_buffer v b1)\<lparr>size_m := size_m v - 1\<rparr>, w1)
                  else Undefined)))"

definition Insert_copy ::
  "('a, 'w) elem_type \<Rightarrow> nat \<Rightarrow> 'a \<Rightarrow> 'a Vector \<Rightarrow> 'w
     \<Rightarrow> ('a Vector \<times> 'w, 'a Vector \<times> 'w) result" where
  "Insert_copy T num_pos val v w = Emplace T num_pos (ByCopy val) v w"

definition Insert_move ::
  "('a, 'w) elem_type \<Rightarrow> nat \<Rightarrow> 'a \<Rightarrow> 'a Vector \<Rightarrow> 'w
     \<Rightarrow> ('a Vector \<times> 'w, 'a Vector \<times> 'w) result" where
  "Insert_move T num_pos val v w = Emplace T num_pos (ByMove val) v w"

text \<open>The constructors. One that throws leaves no object behind, only the environment.\<close>

definition Vector_default :: "'a Vector" where
  "Vector_default = \<lparr>data_m = RawMemory_default, size_m = 0\<rparr>"

definition Vector_sized ::
  "('a, 'w) elem_type \<Rightarrow> nat \<Rightarrow> 'w \<Rightarrow> ('a Vector \<times> 'w, 'w) result" where
  "Vector_sized T n w =
     (case RawMemory_sized_size_t T n w of
        Undefined \<Rightarrow> Undefined
      | Terminated \<Rightarrow> Terminated
      | Threw w1 \<Rightarrow> Threw w1
      | Returned (d, w1) \<Rightarrow>
          (case uninitialized_value_construct_n T (buffer_m d) 0 n w1 of
             Undefined \<Rightarrow> Undefined
           | Terminated \<Rightarrow> Terminated
           | Threw (b, w2) \<Rightarrow> Threw w2
           | Returned (b, w2) \<Rightarrow> Returned (\<lparr>data_m = d\<lparr>buffer_m := b\<rparr>, size_m = n\<rparr>, w2)))"

definition Vector_copy ::
  "('a, 'w) elem_type \<Rightarrow> 'a Vector \<Rightarrow> 'w \<Rightarrow> ('a Vector \<times> 'w, 'w) result" where
  "Vector_copy T other w =
     (case RawMemory_sized T (size_m other) w of
        Undefined \<Rightarrow> Undefined
      | Terminated \<Rightarrow> Terminated
      | Threw w1 \<Rightarrow> Threw w1
      | Returned (d, w1) \<Rightarrow>
          (case uninitialized_copy_n T (buffer_m (data_m other)) 0 (size_m other)
                  (buffer_m d) 0 w1 of
             Undefined \<Rightarrow> Undefined
           | Terminated \<Rightarrow> Terminated
           | Threw (b, w2) \<Rightarrow> Threw w2
           | Returned (b, w2) \<Rightarrow>
               Returned (\<lparr>data_m = d\<lparr>buffer_m := b\<rparr>, size_m = size_m other\<rparr>, w2)))"

text \<open>The move constructors of \<open>RawMemory\<close> and \<open>Vector\<close>: the new object and what is left
  of the source.\<close>

definition RawMemory_move :: "'a RawMemory \<Rightarrow> 'a RawMemory \<times> 'a RawMemory" where
  "RawMemory_move other =
     (\<lparr>buffer_m = buffer_m other, capacity_m = capacity_m other\<rparr>,
      other\<lparr>buffer_m := [], capacity_m := 0\<rparr>)"

definition Vector_move :: "'a Vector \<Rightarrow> 'a Vector \<times> 'a Vector" where
  "Vector_move other =
     (case RawMemory_move (data_m other) of
        (d, other_d) \<Rightarrow>
          (\<lparr>data_m = d, size_m = size_m other\<rparr>, \<lparr>data_m = other_d, size_m = 0\<rparr>))"

text \<open>The destructor: what the block looks like when it is freed.\<close>

definition Vector_dtor :: "'a Vector \<Rightarrow> 'a block option" where
  "Vector_dtor v = destroy_n (buffer_m (data_m v)) 0 (size_m v)"

text \<open>\<open>operator[]\<close> of \<open>Vector\<close>, read: \<open>None\<close> is the failed \<open>assert\<close> or a slot without an
  object.\<close>

definition Vector_index :: "'a Vector \<Rightarrow> nat \<Rightarrow> 'a option" where
  "Vector_index v index =
     (if index < size_m v \<and> assert_index (data_m v) index
      then live_at (buffer_m (data_m v)) index else None)"

text \<open>The loop \<open>std::destroy_at(&data_[i])\<close> of \<open>Resize\<close> and of copy assignment.\<close>

fun destroy_at_loop :: "'a RawMemory \<Rightarrow> nat \<Rightarrow> nat \<Rightarrow> 'a RawMemory option" where
  "destroy_at_loop d i 0 = Some d"
| "destroy_at_loop d i (Suc n) =
     (if \<not> assert_index d i then None
      else
        (case live_at (buffer_m d) i of
           None \<Rightarrow> None
         | Some x \<Rightarrow> destroy_at_loop (d\<lparr>buffer_m := (buffer_m d)[i := None]\<rparr>) (Suc i) n))"


text \<open>\<open>EmplaceBack\<close> inserts at \<open>cend()\<close> and returns \<open>data_[size_ - 1]\<close>; the two \<open>PushBack\<close>
  overloads forward to it.\<close>

definition EmplaceBack ::
  "('a, 'w) elem_type \<Rightarrow> 'a ctor_args \<Rightarrow> 'a Vector \<Rightarrow> 'w
     \<Rightarrow> ('a Vector \<times> 'w, 'a Vector \<times> 'w) result" where
  "EmplaceBack T args v w =
     (if \<not> assert_plus (data_m v) (size_m v) then Undefined
      else
        (case Emplace T (size_m v) args v w of
           Undefined \<Rightarrow> Undefined
         | Terminated \<Rightarrow> Terminated
         | Threw e \<Rightarrow> Threw e
         | Returned (v1, w1) \<Rightarrow>
             if size_m v1 \<noteq> 0 \<and> assert_index (data_m v1) (size_m v1 - 1)
             then Returned (v1, w1) else Undefined))"

definition PushBack_copy ::
  "('a, 'w) elem_type \<Rightarrow> 'a \<Rightarrow> 'a Vector \<Rightarrow> 'w
     \<Rightarrow> ('a Vector \<times> 'w, 'a Vector \<times> 'w) result" where
  "PushBack_copy T val v w = EmplaceBack T (ByCopy val) v w"

definition PushBack_move ::
  "('a, 'w) elem_type \<Rightarrow> 'a \<Rightarrow> 'a Vector \<Rightarrow> 'w
     \<Rightarrow> ('a Vector \<times> 'w, 'a Vector \<times> 'w) result" where
  "PushBack_move T val v w = EmplaceBack T (ByMove val) v w"

text \<open>\<open>PopBack\<close>: on an empty vector \<open>size_ - 1\<close> wraps around and the \<open>assert\<close> of
  \<open>operator[]\<close> fails.\<close>

definition PopBack :: "'a Vector \<Rightarrow> 'a Vector option" where
  "PopBack v =
     (if size_m v = 0 then None
      else
        (case destroy_at_loop (data_m v) (size_m v - 1) 1 of
           None \<Rightarrow> None
         | Some d \<Rightarrow> Some \<lparr>data_m = d, size_m = size_m v - 1\<rparr>))"

text \<open>\<open>Swap\<close> of two different objects: the two \<open>std::swap\<close> of \<open>RawMemory::Swap\<close>, then
  that of \<open>size_\<close>.\<close>

definition Swap :: "'a Vector \<Rightarrow> 'a Vector \<Rightarrow> 'a Vector \<times> 'a Vector" where
  "Swap this other =
     (case RawMemory_Swap (data_m this) (data_m other) of
        (d1, d2) \<Rightarrow> (\<lparr>data_m = d1, size_m = size_m other\<rparr>, \<lparr>data_m = d2, size_m = size_m this\<rparr>))"

subsection \<open>Copy assignment\<close>

text \<open>The three loops of the branch that reuses the storage. None of them cleans up
  when an element throws.\<close>

fun assign_loop ::
  "('a, 'w) elem_type \<Rightarrow> 'a RawMemory \<Rightarrow> 'a Vector \<Rightarrow> nat \<Rightarrow> nat \<Rightarrow> 'w
     \<Rightarrow> ('a RawMemory \<times> 'w, 'a RawMemory \<times> 'w) result" where
  "assign_loop T d rhs current_elem 0 w = Returned (d, w)"
| "assign_loop T d rhs current_elem (Suc n) w =
     (case Vector_index rhs current_elem of
        None \<Rightarrow> Undefined
      | Some x \<Rightarrow>
          if \<not> assert_index d current_elem then Undefined
          else
            (case live_at (buffer_m d) current_elem of
               None \<Rightarrow> Undefined
             | Some y \<Rightarrow>
                 if throws T (CopyAssign x) w then Threw (d, advance T (CopyAssign x) w)
                 else assign_loop T (d\<lparr>buffer_m := (buffer_m d)[current_elem := Some x]\<rparr>) rhs
                        (Suc current_elem) n (advance T (CopyAssign x) w)))"

fun construct_loop ::
  "('a, 'w) elem_type \<Rightarrow> 'a RawMemory \<Rightarrow> 'a Vector \<Rightarrow> nat \<Rightarrow> nat \<Rightarrow> 'w
     \<Rightarrow> ('a RawMemory \<times> 'w, 'a RawMemory \<times> 'w) result" where
  "construct_loop T d rhs current_elem 0 w = Returned (d, w)"
| "construct_loop T d rhs current_elem (Suc n) w =
     (if \<not> assert_plus d current_elem then Undefined
      else
        (case Vector_index rhs current_elem of
           None \<Rightarrow> Undefined
         | Some x \<Rightarrow>
             if length (buffer_m d) \<le> current_elem then Undefined
             else if throws T (CopyConstruct x) w then Threw (d, advance T (CopyConstruct x) w)
             else construct_loop T (d\<lparr>buffer_m := (buffer_m d)[current_elem := Some x]\<rparr>) rhs
                    (Suc current_elem) n (advance T (CopyConstruct x) w)))"

text \<open>
  \<open>operator=(const Vector& rhs)\<close> for \<open>this != &rhs\<close>. In the first branch \<open>rhs_copy\<close> is a
  local: after the swap it holds the old elements, and its destructor destroys them.
\<close>

definition copy_assign ::
  "('a, 'w) elem_type \<Rightarrow> 'a Vector \<Rightarrow> 'a Vector \<Rightarrow> 'w
     \<Rightarrow> ('a Vector \<times> 'w, 'a Vector \<times> 'w) result" where
  "copy_assign T this rhs w =
     (if size_m rhs > capacity_m (data_m this) then
        (case Vector_copy T rhs w of
           Undefined \<Rightarrow> Undefined
         | Terminated \<Rightarrow> Terminated
         | Threw w1 \<Rightarrow> Threw (this, w1)
         | Returned (rhs_copy, w1) \<Rightarrow>
             (case Swap this rhs_copy of
                (this1, rhs_copy1) \<Rightarrow>
                  (case Vector_dtor rhs_copy1 of
                     None \<Rightarrow> Undefined
                   | Some freed \<Rightarrow> Returned (this1, w1))))
      else if size_m this \<ge> size_m rhs then
        (case assign_loop T (data_m this) rhs 0 (size_m rhs) w of
           Undefined \<Rightarrow> Undefined
         | Terminated \<Rightarrow> Terminated
         | Threw (d, w1) \<Rightarrow> Threw (this\<lparr>data_m := d\<rparr>, w1)
         | Returned (d, w1) \<Rightarrow>
             (case destroy_at_loop d (size_m rhs) (size_m this - size_m rhs) of
                None \<Rightarrow> Undefined
              | Some d1 \<Rightarrow> Returned (\<lparr>data_m = d1, size_m = size_m rhs\<rparr>, w1)))
      else
        (case assign_loop T (data_m this) rhs 0 (size_m this) w of
           Undefined \<Rightarrow> Undefined
         | Terminated \<Rightarrow> Terminated
         | Threw (d, w1) \<Rightarrow> Threw (this\<lparr>data_m := d\<rparr>, w1)
         | Returned (d, w1) \<Rightarrow>
             (case construct_loop T d rhs (size_m this) (size_m rhs - size_m this) w1 of
                Undefined \<Rightarrow> Undefined
              | Terminated \<Rightarrow> Terminated
              | Threw (d1, w2) \<Rightarrow> Threw (this\<lparr>data_m := d1\<rparr>, w2)
              | Returned (d1, w2) \<Rightarrow> Returned (\<lparr>data_m = d1, size_m = size_m rhs\<rparr>, w2))))"

subsection \<open>Objects with an identity\<close>

text \<open>
  The assignment operators and \<open>Swap\<close> take a reference that can be the object itself.
  A store maps the address of a \<open>Vector\<close> object to its state; \<open>this\<close> and \<open>rhs\<close> are
  addresses, and every statement of the source is one update of the store, so that a
  write through \<open>this\<close> is seen through \<open>rhs\<close> when both are the same object. The
  \<open>RawMemory\<close> member \<open>data_\<close> of an object is the same as that of another exactly when
  the two objects are the same.
\<close>

type_synonym 'a store = "nat \<Rightarrow> 'a Vector"

definition store_buffer :: "'a store \<Rightarrow> nat \<Rightarrow> 'a block \<Rightarrow> 'a store" where
  "store_buffer s a b = s(a := (s a)\<lparr>data_m := (data_m (s a))\<lparr>buffer_m := b\<rparr>\<rparr>)"

definition store_capacity :: "'a store \<Rightarrow> nat \<Rightarrow> nat \<Rightarrow> 'a store" where
  "store_capacity s a c = s(a := (s a)\<lparr>data_m := (data_m (s a))\<lparr>capacity_m := c\<rparr>\<rparr>)"

definition store_size :: "'a store \<Rightarrow> nat \<Rightarrow> nat \<Rightarrow> 'a store" where
  "store_size s a n = s(a := (s a)\<lparr>size_m := n\<rparr>)"

text \<open>\<open>RawMemory::operator=(RawMemory&&)\<close> on the members \<open>data_\<close> of two objects. The block
  \<open>this\<close> owned before is neither freed nor are its elements destroyed.\<close>

definition RawMemory_move_assign :: "nat \<Rightarrow> nat \<Rightarrow> 'a store \<Rightarrow> 'a store" where
  "RawMemory_move_assign this rhs s =
     (if this \<noteq> rhs then
        (let s1 = store_buffer s this (buffer_m (data_m (s rhs)));
             s2 = store_capacity s1 this (capacity_m (data_m (s1 rhs)));
             s3 = store_buffer s2 rhs [];
             s4 = store_capacity s3 rhs 0
         in s4)
      else s)"

text \<open>\<open>Vector::operator=(Vector&&)\<close>.\<close>

definition Vector_move_assign :: "nat \<Rightarrow> nat \<Rightarrow> 'a store \<Rightarrow> 'a store" where
  "Vector_move_assign this rhs s =
     (let s1 = RawMemory_move_assign this rhs s;
          s2 = store_size s1 this (size_m (s1 rhs));
          s3 = store_size s2 rhs 0
      in s3)"

text \<open>\<open>Vector::operator=(const Vector&)\<close>, with its test \<open>this != &rhs\<close>.\<close>

definition Vector_copy_assign ::
  "('a, 'w) elem_type \<Rightarrow> nat \<Rightarrow> nat \<Rightarrow> 'a store \<Rightarrow> 'w
     \<Rightarrow> ('a store \<times> 'w, 'a store \<times> 'w) result" where
  "Vector_copy_assign T this rhs s w =
     (if this \<noteq> rhs then
        (case copy_assign T (s this) (s rhs) w of
           Undefined \<Rightarrow> Undefined
         | Terminated \<Rightarrow> Terminated
         | Threw (v, w1) \<Rightarrow> Threw (s(this := v), w1)
         | Returned (v, w1) \<Rightarrow> Returned (s(this := v), w1))
      else Returned (s, w))"

text \<open>\<open>Vector::Swap(Vector& other)\<close>: a \<open>std::swap\<close> of a member with itself changes
  nothing.\<close>

definition Vector_Swap :: "nat \<Rightarrow> nat \<Rightarrow> 'a store \<Rightarrow> 'a store" where
  "Vector_Swap this other s =
     (if this = other then s
      else (case Swap (s this) (s other) of (a, b) \<Rightarrow> s(this := a, other := b)))"

section \<open>Notions for the statements\<close>

text \<open>A list with the slots from \<open>i\<close> on replaced by \<open>xs\<close>.\<close>

definition overwrite :: "'a list \<Rightarrow> nat \<Rightarrow> 'a list \<Rightarrow> 'a list" where
  "overwrite b i xs = take i b @ xs @ drop (i + length xs) b"

text \<open>The \<open>n\<close> slots from \<open>i\<close> on are in the block and all hold an object, or are all
  raw.\<close>

definition live_range :: "'a block \<Rightarrow> nat \<Rightarrow> nat \<Rightarrow> bool" where
  "live_range b i n \<longleftrightarrow> (\<forall>k. i \<le> k \<and> k < i + n \<longrightarrow> k < length b \<and> b ! k \<noteq> None)"

definition raw_range :: "'a block \<Rightarrow> nat \<Rightarrow> nat \<Rightarrow> bool" where
  "raw_range b i n \<longleftrightarrow> (\<forall>k. i \<le> k \<and> k < i + n \<longrightarrow> k < length b \<and> b ! k = None)"


text \<open>Copy-constructing the values \<open>xs\<close> one after the other, starting in the environment
  \<open>w\<close>, one of the copy constructions throws.\<close>

fun copies_fail :: "('a, 'w) elem_type \<Rightarrow> 'a list \<Rightarrow> 'w \<Rightarrow> bool" where
  "copies_fail T [] w = False"
| "copies_fail T (x # xs) w =
     (throws T (CopyConstruct x) w \<or> copies_fail T xs (advance T (CopyConstruct x) w))"

text \<open>A sequence of \<open>PushBack\<close> calls: each is \<open>PushBack(const T&)\<close> or \<open>PushBack(T&&)\<close>;
  the sequence stops at the first call that does not return.\<close>

datatype 'a pushed = Lvalue 'a | Rvalue 'a

fun pushed_value :: "'a pushed \<Rightarrow> 'a" where
  "pushed_value (Lvalue x) = x"
| "pushed_value (Rvalue x) = x"

fun PushBack ::
  "('a, 'w) elem_type \<Rightarrow> 'a pushed \<Rightarrow> 'a Vector \<Rightarrow> 'w
     \<Rightarrow> ('a Vector \<times> 'w, 'a Vector \<times> 'w) result" where
  "PushBack T (Lvalue x) v w = PushBack_copy T x v w"
| "PushBack T (Rvalue x) v w = PushBack_move T x v w"

fun PushBack_all ::
  "('a, 'w) elem_type \<Rightarrow> 'a pushed list \<Rightarrow> 'a Vector \<Rightarrow> 'w
     \<Rightarrow> ('a Vector \<times> 'w, 'a Vector \<times> 'w) result" where
  "PushBack_all T [] v w = Returned (v, w)"
| "PushBack_all T (a # as) v w =
     (case PushBack T a v w of
        Returned (v', w') \<Rightarrow> PushBack_all T as v' w'
      | Threw e \<Rightarrow> Threw e
      | Terminated \<Rightarrow> Terminated
      | Undefined \<Rightarrow> Undefined)"

text \<open>The growth policy in the words of the specification: the new capacity is
  \<open>max(1, 2 \<times> old capacity)\<close>, and the capacity after \<open>n\<close> insertions at the end of an empty
  vector, which grows when the size has reached the capacity.\<close>

definition grown_capacity :: "nat \<Rightarrow> nat" where
  "grown_capacity c = max 1 (2 * c)"

fun doubling_from_one :: "nat \<Rightarrow> nat" where
  "doubling_from_one 0 = 0"
| "doubling_from_one (Suc n) =
     (if n = doubling_from_one n then grown_capacity (doubling_from_one n)
      else doubling_from_one n)"

text \<open>What an insertion makes of a block \<open>b\<close> with \<open>s\<close> elements: \<open>x\<close> at \<open>p\<close>, the elements
  from \<open>p\<close> on one slot further, and raw memory behind.\<close>

definition inserted :: "'a block \<Rightarrow> nat \<Rightarrow> nat \<Rightarrow> 'a \<Rightarrow> 'a block \<Rightarrow> bool" where
  "inserted b s p x b' \<longleftrightarrow>
     s < length b' \<and>
     (\<forall>k. k \<le> s \<longrightarrow> b' ! k = (if k < p then b ! k else if k = p then Some x else b ! (k - 1))) \<and>
     (\<forall>k. s < k \<and> k < length b' \<longrightarrow> b' ! k = None)"

text \<open>What a removal makes of a block \<open>b\<close> with \<open>s\<close> elements: the elements behind \<open>p\<close>
  one slot to the front, and the last of the \<open>s\<close> slots raw.\<close>

definition erased :: "'a block \<Rightarrow> nat \<Rightarrow> nat \<Rightarrow> 'a block \<Rightarrow> bool" where
  "erased b s p b' \<longleftrightarrow>
     length b' = length b \<and>
     (\<forall>k < length b. b' ! k =
        (if k < p then b ! k else if k < s - 1 then b ! (k + 1)
         else if k = s - 1 then None else b ! k))"

text \<open>A block of the same length in which every slot that held an object still holds
  one.\<close>

definition grows :: "'a block \<Rightarrow> 'a block \<Rightarrow> bool" where
  "grows b b' \<longleftrightarrow> length b' = length b \<and> (\<forall>k < length b. b ! k \<noteq> None \<longrightarrow> b' ! k \<noteq> None)"


text \<open>No operation of the element type throws, and no allocation does.\<close>

definition never_throws :: "('a, 'w) elem_type \<Rightarrow> bool" where
  "never_throws T \<longleftrightarrow> (\<forall>e w. \<not> throws T e w)"

section \<open>Examples of element types and vectors\<close>

text \<open>The examples are element types of 8 bytes.\<close>

text \<open>An element type none of whose operations throws; it is nothrow-move-constructible,
  and a moved-from object holds \<open>0\<close>.\<close>

definition quiet_type :: "(int, nat) elem_type" where
  "quiet_type =
     \<lparr>nothrow_move_constructible = True, copy_constructible = True, sizeof_T = 8,
      throws = (\<lambda>e w. False), advance = (\<lambda>e w. Suc w),
      moved_from = (\<lambda>x. 0), value_initialized = 0\<rparr>"

text \<open>An element type whose move constructor may throw and whose \<open>k\<close>-th copy
  construction throws; the environment counts the copy constructions made so far.\<close>

definition throwing_copy :: "nat \<Rightarrow> (int, nat) elem_type" where
  "throwing_copy k =
     \<lparr>nothrow_move_constructible = False, copy_constructible = True, sizeof_T = 8,
      throws = (\<lambda>e w. case e of CopyConstruct x \<Rightarrow> Suc w = k | _ \<Rightarrow> False),
      advance = (\<lambda>e w. case e of CopyConstruct x \<Rightarrow> Suc w | _ \<Rightarrow> w),
      moved_from = (\<lambda>x. x), value_initialized = 0\<rparr>"

text \<open>An element type of which every construction throws and no assignment does.\<close>

definition assign_only_type :: "(int, nat) elem_type" where
  "assign_only_type =
     \<lparr>nothrow_move_constructible = False, copy_constructible = True, sizeof_T = 8,
      throws = (\<lambda>e w. case e of MoveAssign x \<Rightarrow> False | CopyAssign x \<Rightarrow> False | _ \<Rightarrow> True),
      advance = (\<lambda>e w. Suc w),
      moved_from = (\<lambda>x. - 1), value_initialized = 0\<rparr>"

text \<open>The vector \<open>[10, 20, 30]\<close> with capacity 4, and the vector \<open>[7]\<close> with capacity 1.\<close>

definition vec3 :: "int Vector" where
  "vec3 = \<lparr>data_m = \<lparr>buffer_m = [Some 10, Some 20, Some 30, None], capacity_m = 4\<rparr>,
           size_m = 3\<rparr>"

definition vec1 :: "int Vector" where
  "vec1 = \<lparr>data_m = \<lparr>buffer_m = [Some 7], capacity_m = 1\<rparr>, size_m = 1\<rparr>"

text \<open>A store with \<open>vec3\<close> at address 0 and \<open>vec1\<close> everywhere else.\<close>

definition store01 :: "int store" where
  "store01 = (\<lambda>a. if a = 0 then vec3 else vec1)"

text \<open>The vector \<open>[7]\<close> with capacity 4, and a store with \<open>vec3\<close> at address 0 and that
  vector everywhere else.\<close>

definition vec1_cap4 :: "int Vector" where
  "vec1_cap4 = \<lparr>data_m = \<lparr>buffer_m = [Some 7, None, None, None], capacity_m = 4\<rparr>,
                size_m = 1\<rparr>"

definition store31 :: "int store" where
  "store31 = (\<lambda>a. if a = 0 then vec3 else vec1_cap4)"

section \<open>Blocks and the loops over them\<close>

lemma length_overwrite [simp]: "i + length xs \<le> length b \<Longrightarrow> length (overwrite b i xs) = length b"
  by (simp add: overwrite_def)

lemma overwrite_Nil [simp]: "overwrite b i [] = b"
  by (simp add: overwrite_def)

lemma nth_overwrite:
  "i + length xs \<le> length b \<Longrightarrow> k < length b \<Longrightarrow>
   overwrite b i xs ! k = (if i \<le> k \<and> k < i + length xs then xs ! (k - i) else b ! k)"
  by (auto simp: overwrite_def nth_append)

lemma overwrite_update:
  "i < length b \<Longrightarrow> overwrite (b[i := y]) (Suc i) ys = overwrite b i (y # ys)"
  by (simp add: overwrite_def take_Suc_conv_app_nth)

lemma overwrite_single: "i < length b \<Longrightarrow> overwrite b i [y] = b[i := y]"
  using overwrite_update [of i b y "[]"] by simp

lemma live_at_Some: "live_at b i = Some x \<Longrightarrow> i < length b \<and> b ! i = Some x"
  by (simp add: live_at_def split: if_splits)

lemma destroy_n_live:
  "live_range b first n \<Longrightarrow> destroy_n b first n = Some (overwrite b first (replicate n None))"
proof (induction n arbitrary: b first)
  case 0
  then show ?case by simp
next
  case (Suc n)
  from Suc.prems have lt: "first < length b" and nn: "b ! first \<noteq> None"
    by (auto simp: live_range_def)
  then obtain x where x: "live_at b first = Some x"
    by (auto simp: live_at_def)
  have "live_range (b[first := None]) (Suc first) n"
    using Suc.prems by (auto simp: live_range_def)
  from Suc.IH [OF this] show ?case
    using x lt by (simp add: overwrite_update)
qed


lemma live_range_0 [simp]: "live_range b i 0"
  by (auto simp: live_range_def)

lemma live_rangeD: "live_range b i n \<Longrightarrow> i \<le> k \<Longrightarrow> k < i + n \<Longrightarrow> k < length b \<and> b ! k \<noteq> None"
  by (auto simp: live_range_def)

lemma live_range_Suc:
  "live_range b i (Suc n) \<longleftrightarrow> i < length b \<and> b ! i \<noteq> None \<and> live_range b (Suc i) n"
proof -
  have "(i \<le> k \<and> k < i + Suc n) = (k = i \<or> (Suc i \<le> k \<and> k < Suc i + n))" for k
    by auto
  then show ?thesis
    unfolding live_range_def by auto
qed

lemma live_range_le_length: "live_range b i n \<Longrightarrow> 0 < n \<Longrightarrow> i + n \<le> length b"
proof -
  assume a: "live_range b i n" "0 < n"
  have "i \<le> i + (n - 1) \<and> i + (n - 1) < i + n"
    using a(2) by simp
  with a(1) have "i + (n - 1) < length b"
    unfolding live_range_def by blast
  with a(2) show ?thesis by simp
qed

lemma take_Suc_drop: "i < length b \<Longrightarrow> take (Suc n) (drop i b) = b ! i # take n (drop (Suc i) b)"
  by (simp add: Cons_nth_drop_Suc [symmetric])

lemma uninitialized_copy_loop_Returned:
  "uninitialized_copy_loop T src first n dst d_first current w = Returned (dst', w') \<Longrightarrow>
   live_range src first n \<and> (0 < n \<longrightarrow> current + n \<le> length dst) \<and>
   dst' = overwrite dst current (take n (drop first src))"
proof (induction n arbitrary: first dst current w)
  case 0
  then show ?case by (auto simp: live_range_def)
next
  case (Suc n)
  from Suc.prems obtain x where x: "live_at src first = Some x"
    by (auto split: option.splits)
  with Suc.prems have lt: "current < length dst"
    and rec: "uninitialized_copy_loop T src (Suc first) n (dst[current := Some x]) d_first
                (Suc current) (advance T (CopyConstruct x) w) = Returned (dst', w')"
    by (auto split: if_splits option.splits)
  from x have sx: "first < length src" "src ! first = Some x"
    by (auto dest: live_at_Some)
  from Suc.IH [OF rec] sx lt show ?case
    by (cases "n = 0") (simp_all add: live_range_Suc take_Suc_drop overwrite_update overwrite_single)
qed

lemma uninitialized_copy_loop_quiet:
  assumes "\<forall>x w. \<not> throws T (CopyConstruct x) w"
  shows "live_range src first n \<Longrightarrow> current + n \<le> length dst \<Longrightarrow>
    \<exists>dst' w'. uninitialized_copy_loop T src first n dst d_first current w = Returned (dst', w')"
proof (induction n arbitrary: first dst current w)
  case 0
  then show ?case by simp
next
  case (Suc n)
  from Suc.prems obtain x where x: "live_at src first = Some x"
    by (auto simp: live_range_Suc live_at_def)
  have "live_range src (Suc first) n" "Suc current + n \<le> length (dst[current := Some x])"
    using Suc.prems by (auto simp: live_range_Suc)
  from Suc.IH [OF this] show ?case
    using x Suc.prems(2) assms by simp
qed

lemma uninitialized_move_loop_Returned:
  "uninitialized_move_loop T src first n dst d_first current w = Returned (src', dst', w') \<Longrightarrow>
   live_range src first n \<and> (0 < n \<longrightarrow> current + n \<le> length dst) \<and>
   src' = overwrite src first (map (\<lambda>s. Some (moved_from T (the s))) (take n (drop first src))) \<and>
   dst' = overwrite dst current (take n (drop first src))"
proof (induction n arbitrary: src first dst current w)
  case 0
  then show ?case by (auto simp: live_range_def)
next
  case (Suc n)
  from Suc.prems obtain x where x: "live_at src first = Some x"
    by (auto split: option.splits)
  define src1 where "src1 = src[first := Some (moved_from T x)]"
  define dst1 where "dst1 = dst[current := Some x]"
  from x Suc.prems have lt: "current < length dst"
    and rec: "uninitialized_move_loop T src1 (Suc first) n dst1 d_first
                (Suc current) (advance T (MoveConstruct x) w) = Returned (src', dst', w')"
    by (auto simp: src1_def dst1_def split: if_splits option.splits)
  from x have sx: "first < length src" "src ! first = Some x"
    by (auto dest: live_at_Some)
  have d: "drop (Suc first) src1 = drop (Suc first) src"
    by (simp add: src1_def)
  have t: "take (Suc n) (drop first src) = Some x # take n (drop (Suc first) src)"
    using sx by (simp add: take_Suc_drop)
  from Suc.IH [OF rec] have
    lr: "live_range src1 (Suc first) n" and
    len: "0 < n \<longrightarrow> Suc current + n \<le> length dst1" and
    s': "src' = overwrite src1 (Suc first)
                 (map (\<lambda>s. Some (moved_from T (the s))) (take n (drop (Suc first) src1)))" and
    d': "dst' = overwrite dst1 (Suc current) (take n (drop (Suc first) src1))"
    by blast+
  have "live_range src (Suc first) n"
    using lr unfolding live_range_def src1_def by auto
  then have 1: "live_range src first (Suc n)"
    using sx by (simp add: live_range_Suc)
  have 2: "current + Suc n \<le> length dst"
    using len lt by (cases "n = 0") (simp_all add: dst1_def)
  have 3: "src' = overwrite src first
             (map (\<lambda>s. Some (moved_from T (the s))) (take (Suc n) (drop first src)))"
    unfolding s' d t src1_def using sx(1) by (simp add: overwrite_update)
  have 4: "dst' = overwrite dst current (take (Suc n) (drop first src))"
    unfolding d' d t dst1_def using lt by (simp add: overwrite_update)
  from 1 2 3 4 show ?case by blast
qed

lemma uninitialized_move_loop_quiet:
  assumes "\<forall>x w. \<not> throws T (MoveConstruct x) w"
  shows "live_range src first n \<Longrightarrow> current + n \<le> length dst \<Longrightarrow>
    \<exists>r. uninitialized_move_loop T src first n dst d_first current w = Returned r"
proof (induction n arbitrary: src first dst current w)
  case 0
  then show ?case by simp
next
  case (Suc n)
  from Suc.prems obtain x where x: "live_at src first = Some x"
    by (auto simp: live_range_Suc live_at_def)
  have "live_range (src[first := Some (moved_from T x)]) (Suc first) n"
       "Suc current + n \<le> length (dst[current := Some x])"
    using Suc.prems by (auto simp: live_range_Suc live_range_def)
  from Suc.IH [OF this] show ?case
    using x Suc.prems(2) assms by simp
qed


lemma RawMemory_sized_cases:
  "RawMemory_sized T n w = Returned (\<lparr>buffer_m = replicate n None, capacity_m = n\<rparr>,
       if n = 0 then w else advance T (Alloc n) w) \<and> (n = 0 \<or> \<not> throws T (Alloc n) w)
   \<or> RawMemory_sized T n w = Threw (advance T (Alloc n) w) \<and> n \<noteq> 0 \<and> throws T (Alloc n) w"
  by (simp add: RawMemory_sized_def Allocate_def)

lemma commit_alt:
  "commit v old new_data new w =
     (case destroy_n old 0 (size_m v) of
        None \<Rightarrow> Undefined
      | Some freed \<Rightarrow>
          Returned (v\<lparr>data_m := (data_m v)\<lparr>buffer_m := new, capacity_m := capacity_m new_data\<rparr>\<rparr>, w))"
  by (simp add: commit_def RawMemory_Swap_def split: option.splits)

lemma Vector_inv_iff:
  "Vector_inv v \<longleftrightarrow>
     length (buffer_m (data_m v)) = capacity_m (data_m v) \<and>
     size_m v \<le> capacity_m (data_m v) \<and>
     live_range (buffer_m (data_m v)) 0 (size_m v) \<and>
     raw_range (buffer_m (data_m v)) (size_m v) (capacity_m (data_m v) - size_m v)"
proof -
  have 1: "list_all (\<lambda>s. s \<noteq> None) (take n b) \<longleftrightarrow> live_range b 0 n"
    if "n \<le> length b" for n and b :: "'a block"
    using that by (auto simp: list_all_length live_range_def)
  have 2: "list_all (\<lambda>s. s = None) (drop n b) \<longleftrightarrow> raw_range b n (length b - n)"
    if "n \<le> length b" for n and b :: "'a block"
  proof
    assume a: "list_all (\<lambda>s. s = None) (drop n b)"
    show "raw_range b n (length b - n)"
      unfolding raw_range_def
    proof (intro allI impI)
      fix k assume k: "n \<le> k \<and> k < n + (length b - n)"
      then have "k - n < length (drop n b)" using that by auto
      with a have "drop n b ! (k - n) = None" by (simp add: list_all_length)
      with k that show "k < length b \<and> b ! k = None" by simp
    qed
  next
    assume "raw_range b n (length b - n)"
    then show "list_all (\<lambda>s. s = None) (drop n b)"
      using that by (simp add: list_all_length raw_range_def)
  qed
  show ?thesis
    unfolding Vector_inv_def by (auto simp del: not_None_eq simp add: 1 2)
qed





lemma live_range_update_other:
  "live_range b i n \<Longrightarrow> live_range (b[k := Some x]) i n"
proof -
  assume a: "live_range b i n"
  show ?thesis
    unfolding live_range_def
  proof (intro allI impI)
    fix j assume "i \<le> j \<and> j < i + n"
    with a have "j < length b" "b ! j \<noteq> None"
      by (auto simp: live_range_def)
    then show "j < length (b[k := Some x]) \<and> b[k := Some x] ! j \<noteq> None"
      by (cases "j = k") simp_all
  qed
qed

lemma live_range_extend:
  "live_range b i n \<Longrightarrow> i + n < length b \<Longrightarrow> live_range (b[i + n := Some x]) i (Suc n)"
  unfolding live_range_def by (simp add: nth_list_update less_Suc_eq)

lemma uninitialized_copy_loop_outcome:
  "live_range src first n \<Longrightarrow> current + n \<le> length dst \<Longrightarrow> d_first \<le> current \<Longrightarrow>
   live_range dst d_first (current - d_first) \<Longrightarrow>
   (if copies_fail T (map the (take n (drop first src))) w
    then \<exists>dst' w'. uninitialized_copy_loop T src first n dst d_first current w = Threw (dst', w')
    else \<exists>dst' w'. uninitialized_copy_loop T src first n dst d_first current w = Returned (dst', w'))"
proof (induction n arbitrary: first dst current w)
  case 0
  then show ?case by simp
next
  case (Suc n)
  from Suc.prems(1) obtain x where x: "first < length src" "src ! first = Some x"
    and lr: "live_range src (Suc first) n"
    by (auto simp: live_range_Suc)
  then have lx: "live_at src first = Some x"
    by (simp add: live_at_def)
  have t: "map the (take (Suc n) (drop first src)) = x # map the (take n (drop (Suc first) src))"
    using x by (simp add: take_Suc_drop)
  from Suc.prems(2) have lt: "current < length dst" by simp
  show ?case
  proof (cases "throws T (CopyConstruct x) w")
    case True
    from destroy_n_live [OF Suc.prems(4)] True lx lt show ?thesis
      by (simp add: t)
  next
    case False
    have k: "current = d_first + (current - d_first)"
      using Suc.prems(3) by simp
    have "live_range (dst[d_first + (current - d_first) := Some x]) d_first (Suc (current - d_first))"
      using Suc.prems(4) lt k by (intro live_range_extend) simp_all
    then have 4: "live_range (dst[current := Some x]) d_first (Suc current - d_first)"
      using Suc.prems(3) by (simp add: Suc_diff_le)
    have 2: "Suc current + n \<le> length (dst[current := Some x])"
      using Suc.prems(2) by simp
    have 3: "d_first \<le> Suc current"
      using Suc.prems(3) by simp
    from Suc.IH [OF lr 2 3 4, of "advance T (CopyConstruct x) w"] False lx lt show ?thesis
      by (simp add: t)
  qed
qed

lemma elems_live: "Vector_inv v \<Longrightarrow> live_range (buffer_m (data_m v)) 0 (size_m v)"
  by (simp add: Vector_inv_iff)






lemma raw_range_Suc:
  "raw_range b i (Suc n) \<longleftrightarrow> i < length b \<and> b ! i = None \<and> raw_range b (Suc i) n"
proof -
  have "(i \<le> k \<and> k < i + Suc n) = (k = i \<or> (Suc i \<le> k \<and> k < Suc i + n))" for k
    by auto
  then show ?thesis
    unfolding raw_range_def by auto
qed

lemma raw_range_update_before:
  "raw_range b (Suc i) n \<Longrightarrow> raw_range (b[i := y]) (Suc i) n"
  unfolding raw_range_def by simp

lemma overwrite_raw_absorb:
  assumes "d \<le> c" "c < length b" "b ! c = None"
  shows "overwrite (b[c := y]) d (replicate (Suc c - d) None) = overwrite b d (replicate (c - d) None)"
proof (rule nth_equalityI)
  show "length (overwrite (b[c := y]) d (replicate (Suc c - d) None))
      = length (overwrite b d (replicate (c - d) None))"
    using assms by simp
next
  fix k assume "k < length (overwrite (b[c := y]) d (replicate (Suc c - d) None))"
  then have k: "k < length b" using assms by simp
  show "overwrite (b[c := y]) d (replicate (Suc c - d) None) ! k
      = overwrite b d (replicate (c - d) None) ! k"
    using assms k by (cases "k = c") (auto simp: nth_overwrite)
qed

lemma cleanup_step:
  assumes "d \<le> c" "c < length b" "live_range b d (c - d)"
  shows "live_range (b[c := Some x]) d (Suc c - d)"
proof -
  have k: "c = d + (c - d)"
    using assms(1) by simp
  have "live_range (b[d + (c - d) := Some x]) d (Suc (c - d))"
    using assms k by (intro live_range_extend) simp_all
  then show ?thesis
    using assms(1) by (simp add: Suc_diff_le)
qed



section \<open>Insertion\<close>

lemma Vector_inv_nth:
  "Vector_inv v \<Longrightarrow> k < size_m v \<Longrightarrow> buffer_m (data_m v) ! k = Some (elems v ! k)"
  by (auto simp: Vector_inv_iff live_range_def elems_def)

lemma Vector_inv_raw:
  "Vector_inv v \<Longrightarrow> size_m v \<le> k \<Longrightarrow> k < capacity_m (data_m v) \<Longrightarrow> buffer_m (data_m v) ! k = None"
  by (auto simp: Vector_inv_iff raw_range_def)

lemma length_elems [simp]: "Vector_inv v \<Longrightarrow> length (elems v) = size_m v"
  by (simp add: elems_def Vector_inv_def)

lemma inserted_Vector:
  assumes inv: "Vector_inv v" and p: "p \<le> size_m v"
    and i: "inserted (buffer_m (data_m v)) (size_m v) p x b'"
    and v': "buffer_m (data_m v') = b'" "capacity_m (data_m v') = length b'"
      "size_m v' = size_m v + 1"
  shows "elems v' = take p (elems v) @ [x] @ drop p (elems v)" and "Vector_inv v'"
proof -
  let ?s = "size_m v"
  from i have lt: "?s < length b'"
    and n: "\<And>k. k \<le> ?s \<Longrightarrow> b' ! k =
        (if k < p then buffer_m (data_m v) ! k else if k = p then Some x
         else buffer_m (data_m v) ! (k - 1))"
    and r: "\<And>k. ?s < k \<Longrightarrow> k < length b' \<Longrightarrow> b' ! k = None"
    by (auto simp: inserted_def)
  have live: "b' ! k = Some ((take p (elems v) @ [x] @ drop p (elems v)) ! k)" if "k \<le> ?s" for k
  proof -
    consider "k < p" | "k = p" | "p < k"
      by linarith
    then show ?thesis
    proof cases
      case 1
      with p that inv show ?thesis
        by (simp add: n nth_append Vector_inv_nth)
    next
      case 2
      with p that inv show ?thesis
        by (simp add: n nth_append)
    next
      case 3
      with p that inv have "k - 1 < ?s" by simp
      from Vector_inv_nth [OF inv this] 3 p that inv show ?thesis
        by (simp add: n nth_append min_def nth_Cons')
    qed
  qed
  show "elems v' = take p (elems v) @ [x] @ drop p (elems v)"
  proof (rule nth_equalityI)
    show "length (elems v') = length (take p (elems v) @ [x] @ drop p (elems v))"
      using inv p lt v' by (simp add: elems_def [of v'])
  next
    fix k assume "k < length (elems v')"
    then have "k \<le> ?s" using v' lt by (simp add: elems_def [of v'])
    with live [OF this] lt show "elems v' ! k = (take p (elems v) @ [x] @ drop p (elems v)) ! k"
      by (simp add: elems_def [of v'] v')
  qed
  show "Vector_inv v'"
    unfolding Vector_inv_iff v'
  proof (intro conjI)
    show "live_range b' 0 (?s + 1)"
      unfolding live_range_def using live lt by auto
    show "raw_range b' (?s + 1) (length b' - (?s + 1))"
      unfolding raw_range_def using r by auto
  qed (use lt in simp_all)
qed


lemma live_at_iff: "live_at b i = Some x \<longleftrightarrow> i < length b \<and> b ! i = Some x"
  by (simp add: live_at_def)

lemma move_backward_loop_shift:
  "move_backward_loop T b first n (first + n + 1) w = Returned (b', w') \<Longrightarrow>
   length b' = length b \<and>
   (\<forall>k < length b. b' ! k =
      (if first < k \<and> k \<le> first + n then b ! (k - 1)
       else if k = first \<and> 0 < n then Some (moved_from T (the (b ! first)))
       else b ! k))"
proof (induction n arbitrary: b w)
  case 0
  then show ?case by auto
next
  case (Suc n)
  from Suc.prems obtain x y where x: "live_at b (first + n) = Some x"
    and y: "live_at b (first + n + 1) = Some y"
    by (auto split: option.splits if_splits)
  define b1 where "b1 = b[first + n := Some (moved_from T x), first + n + 1 := Some x]"
  from Suc.prems x y have
    rec: "move_backward_loop T b1 first n (first + n + 1) (advance T (MoveAssign x) w) = Returned (b', w')"
    by (auto simp: b1_def split: if_splits)
  from x y have lt: "first + n + 1 < length b" and bx: "b ! (first + n) = Some x"
    by (simp_all add: live_at_iff)
  from Suc.IH [OF rec] have len: "length b' = length b"
    and nth: "\<And>k. k < length b \<Longrightarrow> b' ! k =
      (if first < k \<and> k \<le> first + n then b1 ! (k - 1)
       else if k = first \<and> 0 < n then Some (moved_from T (the (b1 ! first)))
       else b1 ! k)"
    by (simp_all add: b1_def)
  have "b' ! k =
      (if first < k \<and> k \<le> first + Suc n then b ! (k - 1)
       else if k = first \<and> 0 < Suc n then Some (moved_from T (the (b ! first)))
       else b ! k)" if k: "k < length b" for k
  proof -
    consider "k < first" | "k = first" | "first < k" "k \<le> first + n" | "k = first + n + 1"
      | "first + n + 1 < k"
      by linarith
    then show ?thesis
    proof cases
      case 1
      with k lt show ?thesis by (simp add: nth b1_def)
    next
      case 2
      with k lt bx show ?thesis by (cases "n = 0") (simp_all add: nth b1_def)
    next
      case 3
      with k lt show ?thesis by (simp add: nth b1_def)
    next
      case 4
      with k lt bx show ?thesis by (simp add: nth b1_def)
    next
      case 5
      with k lt show ?thesis by (simp add: nth b1_def)
    qed
  qed
  with len show ?case by blast
qed

lemma move_backward_loop_quiet:
  assumes "\<forall>x w. \<not> throws T (MoveAssign x) w"
  shows "live_range b first (n + 1) \<Longrightarrow>
    \<exists>r. move_backward_loop T b first n (first + n + 1) w = Returned r"
proof (induction n arbitrary: b w)
  case 0
  then show ?case by simp
next
  case (Suc n)
  from Suc.prems have "first + n < length b \<and> b ! (first + n) \<noteq> None"
    "first + n + 1 < length b \<and> b ! (first + n + 1) \<noteq> None"
    by (auto simp: live_range_def)
  then obtain x y where x: "live_at b (first + n) = Some x"
    and y: "live_at b (first + n + 1) = Some y"
    by (auto simp: live_at_def)
  have "live_range b first (n + 1)"
    using Suc.prems by (auto simp: live_range_def)
  then have "live_range (b[first + n := Some (moved_from T x), first + n + 1 := Some x]) first (n + 1)"
    by (intro live_range_update_other)
  from Suc.IH [OF this] x y assms show ?case
    by simp
qed

lemma copy_backward_loop_shift:
  "copy_backward_loop T b first n (first + n + 1) w = Returned (b', w') \<Longrightarrow>
   length b' = length b \<and>
   (\<forall>k < length b. b' ! k = (if first < k \<and> k \<le> first + n then b ! (k - 1) else b ! k))"
proof (induction n arbitrary: b w)
  case 0
  then show ?case by auto
next
  case (Suc n)
  from Suc.prems obtain x y where x: "live_at b (first + n) = Some x"
    and y: "live_at b (first + n + 1) = Some y"
    by (auto split: option.splits if_splits)
  define b1 where "b1 = b[first + n + 1 := Some x]"
  from Suc.prems x y have
    rec: "copy_backward_loop T b1 first n (first + n + 1) (advance T (CopyAssign x) w) = Returned (b', w')"
    by (auto simp: b1_def split: if_splits)
  from x y have lt: "first + n + 1 < length b" and bx: "b ! (first + n) = Some x"
    by (simp_all add: live_at_iff)
  from Suc.IH [OF rec] have len: "length b' = length b"
    and nth: "\<And>k. k < length b \<Longrightarrow> b' ! k =
      (if first < k \<and> k \<le> first + n then b1 ! (k - 1) else b1 ! k)"
    by (simp_all add: b1_def)
  have "b' ! k = (if first < k \<and> k \<le> first + Suc n then b ! (k - 1) else b ! k)"
    if k: "k < length b" for k
  proof -
    consider "k \<le> first" | "first < k" "k \<le> first + n" | "k = first + n + 1"
      | "first + n + 1 < k"
      by linarith
    then show ?thesis
    proof cases
      case 1
      with k lt show ?thesis by (simp add: nth b1_def)
    next
      case 2
      with k lt show ?thesis by (simp add: nth b1_def)
    next
      case 3
      with k lt bx show ?thesis by (simp add: nth b1_def)
    next
      case 4
      with k lt show ?thesis by (simp add: nth b1_def)
    qed
  qed
  with len show ?case by blast
qed

lemma copy_backward_loop_quiet:
  assumes "\<forall>x w. \<not> throws T (CopyAssign x) w"
  shows "live_range b first (n + 1) \<Longrightarrow>
    \<exists>r. copy_backward_loop T b first n (first + n + 1) w = Returned r"
proof (induction n arbitrary: b w)
  case 0
  then show ?case by simp
next
  case (Suc n)
  from Suc.prems have "first + n < length b \<and> b ! (first + n) \<noteq> None"
    "first + n + 1 < length b \<and> b ! (first + n + 1) \<noteq> None"
    by (auto simp: live_range_def)
  then obtain x y where x: "live_at b (first + n) = Some x"
    and y: "live_at b (first + n + 1) = Some y"
    by (auto simp: live_at_def)
  have "live_range b first (n + 1)"
    using Suc.prems by (auto simp: live_range_def)
  then have "live_range (b[first + n + 1 := Some x]) first (n + 1)"
    by (intro live_range_update_other)
  from Suc.IH [OF this] x y assms show ?case
    by simp
qed


lemma inplace_inserted:
  assumes inv: "Vector_inv v" and p: "p < size_m v" and c: "size_m v < capacity_m (data_m v)"
    and b1: "b1 = (buffer_m (data_m v))[size_m v - 1 := Some m,
               size_m v := buffer_m (data_m v) ! (size_m v - 1)]"
    and len: "length b2 = length b1"
    and nth: "\<And>k. k < length b1 \<Longrightarrow> k \<noteq> p \<Longrightarrow>
        b2 ! k = (if p < k \<and> k \<le> p + (size_m v - 1 - p) then b1 ! (k - 1) else b1 ! k)"
  shows "inserted (buffer_m (data_m v)) (size_m v) p x (b2[p := Some x])"
proof -
  let ?b = "buffer_m (data_m v)" and ?s = "size_m v"
  from inv have lb: "length ?b = capacity_m (data_m v)"
    by (simp add: Vector_inv_def)
  have l1: "length b1 = length ?b" by (simp add: b1)
  show ?thesis
    unfolding inserted_def
  proof (intro conjI allI impI)
    show "?s < length (b2[p := Some x])"
      using c lb len l1 by simp
  next
    fix k assume k: "k \<le> ?s"
    then have kl: "k < length b1" using c lb l1 by simp
    consider "k < p" | "k = p" | "p < k" "k < ?s" | "k = ?s"
      using k by linarith
    then show "b2[p := Some x] ! k =
        (if k < p then ?b ! k else if k = p then Some x else ?b ! (k - 1))"
    proof cases
      case 1
      with kl p c lb show ?thesis by (simp add: nth b1)
    next
      case 2
      with kl len show ?thesis by simp
    next
      case 3
      then have "k \<le> p + (?s - 1 - p)" "k - 1 \<noteq> ?s - 1" "k - 1 \<noteq> ?s" "k \<noteq> p"
        using p by simp_all
      with kl 3 show ?thesis by (simp add: nth b1)
    next
      case 4
      then have "\<not> k \<le> p + (?s - 1 - p)" "k \<noteq> p" "\<not> k < p" "?s - 1 < length ?b"
        using p c lb by simp_all
      with kl 4 show ?thesis by (simp add: nth b1)
    qed
  next
    fix k assume k: "?s < k \<and> k < length (b2[p := Some x])"
    then have kl: "k < length b1" "k < capacity_m (data_m v)" using len l1 lb by simp_all
    moreover from k p have "\<not> k \<le> p + (?s - 1 - p)" "k \<noteq> p" "k \<noteq> ?s - 1" "k \<noteq> ?s"
      by auto
    ultimately show "b2[p := Some x] ! k = None"
      using k Vector_inv_raw [OF inv, of k] by (simp add: nth b1)
  qed
qed

lemma open_back_Returned:
  "open_back T args v w = Returned (b1, w1) \<Longrightarrow>
   \<exists>xl. live_at (buffer_m (data_m v)) (size_m v - 1) = Some xl \<and>
     size_m v < length (buffer_m (data_m v)) \<and>
     b1 = (buffer_m (data_m v))[size_m v - 1 := Some (moved_from T xl), size_m v := Some xl]"
  by (auto simp: open_back_def split: if_splits option.splits)

lemma assign_tmp_Returned:
  "assign_tmp T p x v b w = Returned (v', w') \<Longrightarrow>
   v' = set_buffer v (b[p := Some x]) \<and> live_at b p \<noteq> None"
  by (auto simp: assign_tmp_def split: if_splits option.splits)

lemma construct_in_place_Returned:
  "construct_in_place T p args v w = Returned (v', w') \<Longrightarrow>
   v' = set_buffer v ((buffer_m (data_m v))[p := Some (constructed args)]) \<and>
   p < length (buffer_m (data_m v))"
  by (auto simp: construct_in_place_def split: if_splits)

lemma appended_inserted:
  assumes inv: "Vector_inv v" and c: "size_m v < capacity_m (data_m v)"
  shows "inserted (buffer_m (data_m v)) (size_m v) (size_m v) x
           ((buffer_m (data_m v))[size_m v := Some x])"
proof -
  from inv have lb: "length (buffer_m (data_m v)) = capacity_m (data_m v)"
    by (simp add: Vector_inv_def)
  show ?thesis
    unfolding inserted_def using c lb Vector_inv_raw [OF inv]
    by (auto simp: nth_list_update)
qed

lemma EmplaceWMove_Returned:
  assumes inv: "Vector_inv v" and p: "p \<le> size_m v" and c: "size_m v < capacity_m (data_m v)"
    and r: "EmplaceWMove T p args v w = Returned (v', w')"
  shows "\<exists>b'. v' = set_buffer v b' \<and> length b' = length (buffer_m (data_m v)) \<and>
           inserted (buffer_m (data_m v)) (size_m v) p (constructed args) b'"
proof (cases "size_m v > 0 \<and> p \<noteq> size_m v")
  case True
  with p have ps: "p < size_m v" by simp
  from True r obtain b1 w2 b2 w3 where
    ob: "open_back T args v w = Returned (b1, w2)"
    and mb: "move_backward T b1 p (size_m v - 1) (size_m v) w2 = Returned (b2, w3)"
    and at: "assign_tmp T p (constructed args) v b2 w3 = Returned (v', w')"
    by (auto simp: EmplaceWMove_def split: result.splits if_splits)
  from open_back_Returned [OF ob] obtain xl where
    xl: "live_at (buffer_m (data_m v)) (size_m v - 1) = Some xl"
    and b1: "b1 = (buffer_m (data_m v))[size_m v - 1 := Some (moved_from T xl), size_m v := Some xl]"
    by blast
  from xl have b1': "b1 = (buffer_m (data_m v))[size_m v - 1 := Some (moved_from T xl),
      size_m v := buffer_m (data_m v) ! (size_m v - 1)]"
    by (simp add: b1 live_at_iff)
  have e: "p + (size_m v - 1 - p) + 1 = size_m v" "size_m v - 1 - p = size_m v - Suc p"
    using ps by simp_all
  from mb ps have "move_backward_loop T b1 p (size_m v - 1 - p) (p + (size_m v - 1 - p) + 1) w2
      = Returned (b2, w3)"
    by (simp add: move_backward_def e split: if_splits)
  from move_backward_loop_shift [OF this]
  have len: "length b2 = length b1"
    and nth: "\<And>k. k < length b1 \<Longrightarrow> k \<noteq> p \<Longrightarrow>
        b2 ! k = (if p < k \<and> k \<le> p + (size_m v - 1 - p) then b1 ! (k - 1) else b1 ! k)"
    by simp_all
  from len have "length (b2[p := Some (constructed args)]) = length (buffer_m (data_m v))"
    by (simp add: b1)
  with inplace_inserted [OF inv ps c b1' len nth] assign_tmp_Returned [OF at]
  show ?thesis by blast
next
  case False
  with p have ps: "p = size_m v" by auto
  from r ps have "construct_in_place T p args v w = Returned (v', w')"
    by (simp add: EmplaceWMove_def)
  from construct_in_place_Returned [OF this] appended_inserted [OF inv c] ps
  show ?thesis by (intro exI [of _ "(buffer_m (data_m v))[p := Some (constructed args)]"]) simp
qed

lemma EmplaceWCopy_Returned:
  assumes inv: "Vector_inv v" and p: "p \<le> size_m v" and c: "size_m v < capacity_m (data_m v)"
    and r: "EmplaceWCopy T p args v w = Returned (v', w')"
  shows "\<exists>b'. v' = set_buffer v b' \<and> length b' = length (buffer_m (data_m v)) \<and>
           inserted (buffer_m (data_m v)) (size_m v) p (constructed args) b'"
proof (cases "size_m v > 0 \<and> p \<noteq> size_m v")
  case True
  with p have ps: "p < size_m v" by simp
  from True r obtain b1 w2 b2 w3 where
    ob: "open_back T args v w = Returned (b1, w2)"
    and mb: "copy_backward T b1 p (size_m v - 1) (size_m v) w2 = Returned (b2, w3)"
    and at: "assign_tmp T p (constructed args) v b2 w3 = Returned (v', w')"
    by (auto simp: EmplaceWCopy_def split: result.splits if_splits)
  from open_back_Returned [OF ob] obtain xl where
    xl: "live_at (buffer_m (data_m v)) (size_m v - 1) = Some xl"
    and b1: "b1 = (buffer_m (data_m v))[size_m v - 1 := Some (moved_from T xl), size_m v := Some xl]"
    by blast
  from xl have b1': "b1 = (buffer_m (data_m v))[size_m v - 1 := Some (moved_from T xl),
      size_m v := buffer_m (data_m v) ! (size_m v - 1)]"
    by (simp add: b1 live_at_iff)
  have e: "p + (size_m v - 1 - p) + 1 = size_m v" "size_m v - 1 - p = size_m v - Suc p"
    using ps by simp_all
  from mb ps have "copy_backward_loop T b1 p (size_m v - 1 - p) (p + (size_m v - 1 - p) + 1) w2
      = Returned (b2, w3)"
    by (simp add: copy_backward_def e split: if_splits)
  from copy_backward_loop_shift [OF this]
  have len: "length b2 = length b1"
    and nth: "\<And>k. k < length b1 \<Longrightarrow> k \<noteq> p \<Longrightarrow>
        b2 ! k = (if p < k \<and> k \<le> p + (size_m v - 1 - p) then b1 ! (k - 1) else b1 ! k)"
    by simp_all
  from len have "length (b2[p := Some (constructed args)]) = length (buffer_m (data_m v))"
    by (simp add: b1)
  with inplace_inserted [OF inv ps c b1' len nth] assign_tmp_Returned [OF at]
  show ?thesis by blast
next
  case False
  with p have ps: "p = size_m v" by auto
  from r ps have "construct_in_place T p args v w = Returned (v', w')"
    by (simp add: EmplaceWCopy_def)
  from construct_in_place_Returned [OF this] appended_inserted [OF inv c] ps
  show ?thesis by (intro exI [of _ "(buffer_m (data_m v))[p := Some (constructed args)]"]) simp
qed


lemma grows_refl [simp]: "grows b b"
  by (simp add: grows_def)

lemma grows_trans: "grows a b \<Longrightarrow> grows b c \<Longrightarrow> grows a c"
  by (simp add: grows_def)

lemma grows_update: "grows b (b[k := Some x])"
  by (cases "k < length b") (auto simp: grows_def nth_list_update)

lemma grows_update2: "grows b (b[k := Some x, j := Some y])"
  by (rule grows_trans [OF grows_update grows_update])

lemma grows_live_range: "grows b b' \<Longrightarrow> live_range b i n \<Longrightarrow> live_range b' i n"
  by (simp add: grows_def live_range_def)

lemma grows_live_at: "grows b b' \<Longrightarrow> live_at b i \<noteq> None \<Longrightarrow> live_at b' i \<noteq> None"
  by (simp add: grows_def live_at_def split: if_splits)

lemma move_backward_loop_grows:
  "move_backward_loop T b first n d_last w = Returned (b', w') \<or>
   move_backward_loop T b first n d_last w = Threw (b', w') \<Longrightarrow> grows b b'"
proof (induction n arbitrary: b d_last w)
  case 0
  then show ?case by auto
next
  case (Suc n)
  show ?case
  proof (cases "live_at b (first + n)")
    case None
    with Suc.prems show ?thesis by simp
  next
    case (Some x)
    show ?thesis
    proof (cases "d_last = 0 \<or> live_at b (d_last - 1) = None \<or> throws T (MoveAssign x) w")
      case True
      with Suc.prems Some show ?thesis by (auto split: option.splits if_splits)
    next
      case False
      with Suc.prems Some have
        "move_backward_loop T (b[first + n := Some (moved_from T x), d_last - 1 := Some x])
           first n (d_last - 1) (advance T (MoveAssign x) w) = Returned (b', w') \<or>
         move_backward_loop T (b[first + n := Some (moved_from T x), d_last - 1 := Some x])
           first n (d_last - 1) (advance T (MoveAssign x) w) = Threw (b', w')"
        by auto
      from grows_trans [OF grows_update2 Suc.IH [OF this]] show ?thesis .
    qed
  qed
qed

lemma copy_backward_loop_grows:
  "copy_backward_loop T b first n d_last w = Returned (b', w') \<or>
   copy_backward_loop T b first n d_last w = Threw (b', w') \<Longrightarrow> grows b b'"
proof (induction n arbitrary: b d_last w)
  case 0
  then show ?case by auto
next
  case (Suc n)
  show ?case
  proof (cases "live_at b (first + n)")
    case None
    with Suc.prems show ?thesis by simp
  next
    case (Some x)
    show ?thesis
    proof (cases "d_last = 0 \<or> live_at b (d_last - 1) = None \<or> throws T (CopyAssign x) w")
      case True
      with Suc.prems Some show ?thesis by (auto split: option.splits if_splits)
    next
      case False
      with Suc.prems Some have
        "copy_backward_loop T (b[d_last - 1 := Some x])
           first n (d_last - 1) (advance T (CopyAssign x) w) = Returned (b', w') \<or>
         copy_backward_loop T (b[d_last - 1 := Some x])
           first n (d_last - 1) (advance T (CopyAssign x) w) = Threw (b', w')"
        by auto
      from grows_trans [OF grows_update Suc.IH [OF this]] show ?thesis .
    qed
  qed
qed

lemma move_loop_grows:
  "move_loop T b first n d_first w = Returned (b', w') \<or>
   move_loop T b first n d_first w = Threw (b', w') \<Longrightarrow> grows b b'"
proof (induction n arbitrary: b first d_first w)
  case 0
  then show ?case by auto
next
  case (Suc n)
  show ?case
  proof (cases "live_at b first")
    case None
    with Suc.prems show ?thesis by simp
  next
    case (Some x)
    show ?thesis
    proof (cases "live_at b d_first = None \<or> throws T (MoveAssign x) w")
      case True
      with Suc.prems Some show ?thesis by (auto split: option.splits if_splits)
    next
      case False
      with Suc.prems Some have
        "move_loop T (b[first := Some (moved_from T x), d_first := Some x])
           (Suc first) n (Suc d_first) (advance T (MoveAssign x) w) = Returned (b', w') \<or>
         move_loop T (b[first := Some (moved_from T x), d_first := Some x])
           (Suc first) n (Suc d_first) (advance T (MoveAssign x) w) = Threw (b', w')"
        by auto
      from grows_trans [OF grows_update2 Suc.IH [OF this]] show ?thesis .
    qed
  qed
qed

lemma open_back_quiet:
  assumes q: "never_throws T" and inv: "Vector_inv v" and s: "0 < size_m v"
    and c: "size_m v < capacity_m (data_m v)"
  shows "\<exists>xl. open_back T args v w =
    Returned ((buffer_m (data_m v))[size_m v - 1 := Some (moved_from T xl), size_m v := Some xl],
              advance T (MoveConstruct xl) (advance T (ctor_event args) w))"
proof -
  from inv have lb: "length (buffer_m (data_m v)) = capacity_m (data_m v)"
    by (simp add: Vector_inv_def)
  from Vector_inv_nth [OF inv, of "size_m v - 1"] s c lb
  have "live_at (buffer_m (data_m v)) (size_m v - 1) = Some (elems v ! (size_m v - 1))"
    by (simp add: live_at_def)
  with q c lb show ?thesis
    by (auto simp: open_back_def never_throws_def assert_plus_def assert_index_def)
qed

lemma inplace_live:
  assumes inv: "Vector_inv v" and c: "size_m v < capacity_m (data_m v)"
  shows "live_range ((buffer_m (data_m v))[size_m v - 1 := Some m, size_m v := Some x])
           0 (size_m v + 1)"
proof -
  from inv have lb: "length (buffer_m (data_m v)) = capacity_m (data_m v)"
    by (simp add: Vector_inv_def)
  have "live_range ((buffer_m (data_m v))[size_m v - 1 := Some m]) 0 (size_m v)"
    by (intro live_range_update_other elems_live [OF inv])
  from live_range_extend [OF this, of x] c lb show ?thesis
    by simp
qed

lemma live_range_sub:
  "live_range b i n \<Longrightarrow> i \<le> j \<Longrightarrow> j + m \<le> i + n \<Longrightarrow> live_range b j m"
  by (simp add: live_range_def)

lemma EmplaceWMove_quiet:
  assumes q: "never_throws T" and inv: "Vector_inv v" and p: "p \<le> size_m v"
    and c: "size_m v < capacity_m (data_m v)"
  shows "\<exists>r. EmplaceWMove T p args v w = Returned r"
proof (cases "size_m v > 0 \<and> p \<noteq> size_m v")
  case True
  with p have ps: "p < size_m v" by simp
  from inv have lb: "length (buffer_m (data_m v)) = capacity_m (data_m v)"
    by (simp add: Vector_inv_def)
  from True open_back_quiet [OF q inv _ c, of args w] obtain b1 w2 xl where
    ob: "open_back T args v w = Returned (b1, w2)"
    and b1: "b1 = (buffer_m (data_m v))[size_m v - 1 := Some (moved_from T xl), size_m v := Some xl]"
    by auto
  have l1: "live_range b1 0 (size_m v + 1)"
    unfolding b1 by (rule inplace_live [OF inv c])
  have e: "p + (size_m v - 1 - p) + 1 = size_m v" "size_m v - 1 - p = size_m v - Suc p"
    using ps by simp_all
  have "live_range b1 p ((size_m v - 1 - p) + 1)"
    using ps by (intro live_range_sub [OF l1]) simp_all
  from move_backward_loop_quiet [OF _ this, of T w2] q obtain b2 w3 where
    ml: "move_backward_loop T b1 p (size_m v - 1 - p) (p + (size_m v - 1 - p) + 1) w2 = Returned (b2, w3)"
    by (auto simp: never_throws_def)
  with ps have mb: "move_backward T b1 p (size_m v - 1) (size_m v) w2 = Returned (b2, w3)"
    by (simp add: move_backward_def e)
  from move_backward_loop_grows [OF disjI1, OF ml] have "grows b1 b2" .
  from grows_live_range [OF this l1] ps have "live_at b2 p \<noteq> None"
    by (simp add: live_range_def live_at_def)
  with q ps c have "\<exists>r. assign_tmp T p (constructed args) v b2 w3 = Returned r"
    by (auto simp: assign_tmp_def never_throws_def assert_index_def)
  with True ob mb ps c show ?thesis
    by (auto simp: EmplaceWMove_def assert_plus_def)
next
  case False
  with p have ps: "p = size_m v" by auto
  from inv have lb: "length (buffer_m (data_m v)) = capacity_m (data_m v)"
    by (simp add: Vector_inv_def)
  from q ps c lb show ?thesis
    by (simp add: EmplaceWMove_def construct_in_place_def never_throws_def assert_plus_def)
qed

lemma EmplaceWCopy_quiet:
  assumes q: "never_throws T" and inv: "Vector_inv v" and p: "p \<le> size_m v"
    and c: "size_m v < capacity_m (data_m v)"
  shows "\<exists>r. EmplaceWCopy T p args v w = Returned r"
proof (cases "size_m v > 0 \<and> p \<noteq> size_m v")
  case True
  with p have ps: "p < size_m v" by simp
  from inv have lb: "length (buffer_m (data_m v)) = capacity_m (data_m v)"
    by (simp add: Vector_inv_def)
  from True open_back_quiet [OF q inv _ c, of args w] obtain b1 w2 xl where
    ob: "open_back T args v w = Returned (b1, w2)"
    and b1: "b1 = (buffer_m (data_m v))[size_m v - 1 := Some (moved_from T xl), size_m v := Some xl]"
    by auto
  have l1: "live_range b1 0 (size_m v + 1)"
    unfolding b1 by (rule inplace_live [OF inv c])
  have e: "p + (size_m v - 1 - p) + 1 = size_m v" "size_m v - 1 - p = size_m v - Suc p"
    using ps by simp_all
  have "live_range b1 p ((size_m v - 1 - p) + 1)"
    using ps by (intro live_range_sub [OF l1]) simp_all
  from copy_backward_loop_quiet [OF _ this, of T w2] q obtain b2 w3 where
    ml: "copy_backward_loop T b1 p (size_m v - 1 - p) (p + (size_m v - 1 - p) + 1) w2 = Returned (b2, w3)"
    by (auto simp: never_throws_def)
  with ps have mb: "copy_backward T b1 p (size_m v - 1) (size_m v) w2 = Returned (b2, w3)"
    by (simp add: copy_backward_def e)
  from copy_backward_loop_grows [OF disjI1, OF ml] have "grows b1 b2" .
  from grows_live_range [OF this l1] ps have "live_at b2 p \<noteq> None"
    by (simp add: live_range_def live_at_def)
  with q ps c have "\<exists>r. assign_tmp T p (constructed args) v b2 w3 = Returned r"
    by (auto simp: assign_tmp_def never_throws_def assert_index_def)
  with True ob mb ps c show ?thesis
    by (auto simp: EmplaceWCopy_def assert_plus_def)
next
  case False
  with p have ps: "p = size_m v" by auto
  from inv have lb: "length (buffer_m (data_m v)) = capacity_m (data_m v)"
    by (simp add: Vector_inv_def)
  from q ps c lb show ?thesis
    by (simp add: EmplaceWCopy_def construct_in_place_def never_throws_def assert_plus_def)
qed


lemma grown_inserted:
  assumes lb: "length b = s" and p: "p \<le> s" and ns: "s < ns"
    and new1: "new1 = overwrite ((replicate ns None)[p := Some x]) 0 (take p b)"
    and new2: "new2 = (if p \<noteq> s then overwrite new1 (p + 1) (take (s - p) (drop p b)) else new1)"
  shows "length new2 = ns \<and> inserted b s p x new2"
proof -
  have l1: "length new1 = ns"
    using lb p ns by (simp add: new1)
  have n1: "new1 ! k = (if k < p then b ! k else if k = p then Some x else None)" if "k < ns" for k
    using that lb p ns by (simp add: new1 nth_overwrite nth_list_update)
  have l2: "length new2 = ns"
    using lb p ns l1 by (simp add: new2)
  have n2: "new2 ! k = (if p < k \<and> k \<le> s then b ! (k - 1) else new1 ! k)" if k: "k < ns" for k
  proof (cases "p = s")
    case True
    then show ?thesis by (auto simp: new2)
  next
    case False
    have "p + 1 + length (take (s - p) (drop p b)) \<le> length new1"
      using lb p ns l1 by simp
    from nth_overwrite [OF this, of k] k l1 False lb p show ?thesis
      by (auto simp: new2)
  qed
  show ?thesis
    unfolding inserted_def using l2 ns p by (auto simp: n1 n2)
qed

lemma drop_overwrite_front:
  "p \<le> length b \<Longrightarrow> drop p (overwrite b 0 (map f (take p b))) = drop p b"
  by (simp add: overwrite_def)

lemma uninitialized_move_loop_grows:
  "uninitialized_move_loop T src first n dst d_first current w = Returned (src', dst', w') \<or>
   uninitialized_move_loop T src first n dst d_first current w = Threw (src', dst', w')
   \<Longrightarrow> grows src src'"
proof (induction n arbitrary: src first dst current w)
  case 0
  then show ?case by auto
next
  case (Suc n)
  show ?case
  proof (cases "live_at src first")
    case None
    with Suc.prems show ?thesis by simp
  next
    case (Some x)
    show ?thesis
    proof (cases "length dst \<le> current \<or> throws T (MoveConstruct x) w")
      case True
      with Suc.prems Some show ?thesis by (auto split: option.splits if_splits)
    next
      case False
      with Suc.prems Some have
        "uninitialized_move_loop T (src[first := Some (moved_from T x)]) (Suc first) n
           (dst[current := Some x]) d_first (Suc current) (advance T (MoveConstruct x) w)
           = Returned (src', dst', w') \<or>
         uninitialized_move_loop T (src[first := Some (moved_from T x)]) (Suc first) n
           (dst[current := Some x]) d_first (Suc current) (advance T (MoveConstruct x) w)
           = Threw (src', dst', w')"
        by auto
      from grows_trans [OF grows_update Suc.IH [OF this]] show ?thesis .
    qed
  qed
qed

lemma commit_Returned:
  "commit v old new_data new w = Returned (v', w') \<Longrightarrow>
   v' = v\<lparr>data_m := (data_m v)\<lparr>buffer_m := new, capacity_m := capacity_m new_data\<rparr>\<rparr> \<and> w' = w"
  by (simp add: commit_alt split: option.splits)

lemma commit_live:
  "live_range old 0 (size_m v) \<Longrightarrow>
   commit v old new_data new w =
     Returned (v\<lparr>data_m := (data_m v)\<lparr>buffer_m := new, capacity_m := capacity_m new_data\<rparr>\<rparr>, w)"
  by (simp add: commit_alt destroy_n_live)

lemma grow_by_move_Returned:
  assumes inv: "Vector_inv v" and sc: "size_m v = capacity_m (data_m v)" and p: "p \<le> size_m v"
    and ns: "size_m v < ns"
    and r: "grow_by_move T p v \<lparr>buffer_m = replicate ns None, capacity_m = ns\<rparr>
              ((replicate ns None)[p := Some x]) w = Returned (v', w')"
  shows "\<exists>b'. v' = v\<lparr>data_m := (data_m v)\<lparr>buffer_m := b', capacity_m := ns\<rparr>\<rparr> \<and>
           length b' = ns \<and> inserted (buffer_m (data_m v)) (size_m v) p x b'"
proof -
  let ?b = "buffer_m (data_m v)" and ?s = "size_m v"
  let ?nd = "\<lparr>buffer_m = replicate ns None, capacity_m = ns\<rparr> :: 'a RawMemory"
  from inv sc have lb: "length ?b = ?s"
    by (simp add: Vector_inv_def)
  from r obtain old1 new1 w1 where
    u1: "uninitialized_move_n T ?b 0 p ((replicate ns None)[p := Some x]) 0 w = Returned (old1, new1, w1)"
    by (auto simp: grow_by_move_def split: result.splits)
  from uninitialized_move_loop_Returned [OF u1 [unfolded uninitialized_move_n_def]]
  have new1: "new1 = overwrite ((replicate ns None)[p := Some x]) 0 (take p ?b)"
    and old1: "old1 = overwrite ?b 0 (map (\<lambda>s. Some (moved_from T (the s))) (take p ?b))"
    by simp_all
  show ?thesis
  proof (cases "p = ?s")
    case True
    with r u1 have "commit v old1 ?nd new1 w1 = Returned (v', w')"
      by (simp add: grow_by_move_def)
    from commit_Returned [OF this] grown_inserted [OF lb p ns new1, of new1] True
    show ?thesis by auto
  next
    case False
    with r u1 obtain old2 new2 w2 where
      u2: "uninitialized_move_n T old1 p (?s - p) new1 (p + 1) w1 = Returned (old2, new2, w2)"
      and c: "commit v old2 ?nd new2 w2 = Returned (v', w')"
      by (auto simp: grow_by_move_def split: result.splits if_splits)
    from uninitialized_move_loop_Returned [OF u2 [unfolded uninitialized_move_n_def]]
    have "new2 = overwrite new1 (p + 1) (take (?s - p) (drop p old1))"
      by simp
    then have new2: "new2 = (if p \<noteq> ?s then overwrite new1 (p + 1) (take (?s - p) (drop p ?b)) else new1)"
      using False p lb by (simp add: old1 drop_overwrite_front)
    from commit_Returned [OF c] grown_inserted [OF lb p ns new1 new2]
    show ?thesis by auto
  qed
qed

lemma grow_by_copy_Returned:
  assumes inv: "Vector_inv v" and sc: "size_m v = capacity_m (data_m v)" and p: "p \<le> size_m v"
    and ns: "size_m v < ns"
    and r: "grow_by_copy T p v \<lparr>buffer_m = replicate ns None, capacity_m = ns\<rparr>
              ((replicate ns None)[p := Some x]) w = Returned (v', w')"
  shows "\<exists>b'. v' = v\<lparr>data_m := (data_m v)\<lparr>buffer_m := b', capacity_m := ns\<rparr>\<rparr> \<and>
           length b' = ns \<and> inserted (buffer_m (data_m v)) (size_m v) p x b'"
proof -
  let ?b = "buffer_m (data_m v)" and ?s = "size_m v"
  let ?nd = "\<lparr>buffer_m = replicate ns None, capacity_m = ns\<rparr> :: 'a RawMemory"
  from inv sc have lb: "length ?b = ?s"
    by (simp add: Vector_inv_def)
  from r obtain new1 w1 where
    u1: "uninitialized_copy_n T ?b 0 p ((replicate ns None)[p := Some x]) 0 w = Returned (new1, w1)"
    by (auto simp: grow_by_copy_def split: result.splits)
  from uninitialized_copy_loop_Returned [OF u1 [unfolded uninitialized_copy_n_def]]
  have new1: "new1 = overwrite ((replicate ns None)[p := Some x]) 0 (take p ?b)"
    by simp
  show ?thesis
  proof (cases "p = ?s")
    case True
    with r u1 have "commit v ?b ?nd new1 w1 = Returned (v', w')"
      by (simp add: grow_by_copy_def)
    from commit_Returned [OF this] grown_inserted [OF lb p ns new1, of new1] True
    show ?thesis by auto
  next
    case False
    with r u1 obtain new2 w2 where
      u2: "uninitialized_copy_n T ?b p (?s - p) new1 (p + 1) w1 = Returned (new2, w2)"
      and c: "commit v ?b ?nd new2 w2 = Returned (v', w')"
      by (auto simp: grow_by_copy_def split: result.splits if_splits)
    from uninitialized_copy_loop_Returned [OF u2 [unfolded uninitialized_copy_n_def]]
    have "new2 = overwrite new1 (p + 1) (take (?s - p) (drop p ?b))"
      by simp
    then have new2: "new2 = (if p \<noteq> ?s then overwrite new1 (p + 1) (take (?s - p) (drop p ?b)) else new1)"
      using False by simp
    from commit_Returned [OF c] grown_inserted [OF lb p ns new1 new2]
    show ?thesis by auto
  qed
qed


lemma grow_by_move_quiet:
  assumes q: "\<forall>x w. \<not> throws T (MoveConstruct x) w"
    and inv: "Vector_inv v" and sc: "size_m v = capacity_m (data_m v)" and p: "p \<le> size_m v"
    and ns: "size_m v < ns"
  shows "\<exists>r. grow_by_move T p v \<lparr>buffer_m = replicate ns None, capacity_m = ns\<rparr>
              ((replicate ns None)[p := Some x]) w = Returned r"
proof -
  let ?b = "buffer_m (data_m v)" and ?s = "size_m v"
  let ?nd = "\<lparr>buffer_m = replicate ns None, capacity_m = ns\<rparr> :: 'a RawMemory"
  from inv sc have lb: "length ?b = ?s"
    by (simp add: Vector_inv_def)
  note live = elems_live [OF inv]
  have "live_range ?b 0 p" "0 + p \<le> length ((replicate ns None)[p := Some x])"
    using p ns by (simp_all add: live_range_sub [OF live])
  from uninitialized_move_loop_quiet [OF q this, of 0 w] obtain old1 new1 w1 where
    u1: "uninitialized_move_loop T ?b 0 p ((replicate ns None)[p := Some x]) 0 0 w = Returned (old1, new1, w1)"
    by (metis prod_cases3)
  from uninitialized_move_loop_Returned [OF u1] p lb ns have l1: "length new1 = ns"
    by simp
  from uninitialized_move_loop_grows [OF disjI1, OF u1] have g1: "grows ?b old1" .
  show ?thesis
  proof (cases "p = ?s")
    case True
    with u1 commit_live [OF grows_live_range [OF g1 live], of ?nd new1 w1] show ?thesis
      by (simp add: grow_by_move_def uninitialized_move_n_def)
  next
    case False
    have "live_range old1 p (?s - p)" "p + 1 + (?s - p) \<le> length new1"
      using p ns l1 by (simp_all add: grows_live_range [OF g1 live_range_sub [OF live]])
    from uninitialized_move_loop_quiet [OF q this, of "p + 1" w1] obtain old2 new2 w2 where
      u2: "uninitialized_move_loop T old1 p (?s - p) new1 (p + 1) (p + 1) w1 = Returned (old2, new2, w2)"
      by (metis prod_cases3)
    from uninitialized_move_loop_grows [OF disjI1, OF u2] have g2: "grows old1 old2" .
    from False u1 u2 p ns sc
      commit_live [OF grows_live_range [OF g2 grows_live_range [OF g1 live]], of ?nd new2 w2]
    show ?thesis
      by (simp add: grow_by_move_def uninitialized_move_n_def assert_plus_def)
  qed
qed

lemma grow_by_copy_quiet:
  assumes q: "\<forall>x w. \<not> throws T (CopyConstruct x) w"
    and inv: "Vector_inv v" and sc: "size_m v = capacity_m (data_m v)" and p: "p \<le> size_m v"
    and ns: "size_m v < ns"
  shows "\<exists>r. grow_by_copy T p v \<lparr>buffer_m = replicate ns None, capacity_m = ns\<rparr>
              ((replicate ns None)[p := Some x]) w = Returned r"
proof -
  let ?b = "buffer_m (data_m v)" and ?s = "size_m v"
  let ?nd = "\<lparr>buffer_m = replicate ns None, capacity_m = ns\<rparr> :: 'a RawMemory"
  from inv sc have lb: "length ?b = ?s"
    by (simp add: Vector_inv_def)
  note live = elems_live [OF inv]
  have "live_range ?b 0 p" "0 + p \<le> length ((replicate ns None)[p := Some x])"
    using p ns by (simp_all add: live_range_sub [OF live])
  from uninitialized_copy_loop_quiet [OF q this, of 0 w] obtain new1 w1 where
    u1: "uninitialized_copy_loop T ?b 0 p ((replicate ns None)[p := Some x]) 0 0 w = Returned (new1, w1)"
    by blast
  from uninitialized_copy_loop_Returned [OF u1] p lb ns have l1: "length new1 = ns"
    by simp
  show ?thesis
  proof (cases "p = ?s")
    case True
    with u1 commit_live [OF live, of ?nd new1 w1] show ?thesis
      by (simp add: grow_by_copy_def uninitialized_copy_n_def)
  next
    case False
    have "live_range ?b p (?s - p)" "p + 1 + (?s - p) \<le> length new1"
      using p ns l1 by (simp_all add: live_range_sub [OF live])
    from uninitialized_copy_loop_quiet [OF q this, of "p + 1" w1] obtain new2 w2 where
      u2: "uninitialized_copy_loop T ?b p (?s - p) new1 (p + 1) (p + 1) w1 = Returned (new2, w2)"
      by blast
    from False u1 u2 p ns sc commit_live [OF live, of ?nd new2 w2]
    show ?thesis
      by (simp add: grow_by_copy_def uninitialized_copy_n_def assert_plus_def)
  qed
qed

lemma Emplace_finish_Returned:
  "Emplace_finish p r = Returned (v', w') \<Longrightarrow>
   \<exists>v1. r = Returned (v1, w') \<and> v' = v1\<lparr>size_m := size_m v1 + 1\<rparr> \<and> p < capacity_m (data_m v1)"
  by (auto simp: Emplace_finish_def assert_index_def split: result.splits if_splits)

lemma Emplace_Returned:
  assumes inv: "Vector_inv v" and p: "p \<le> size_m v"
    and r: "Emplace T p args v w = Returned (v', w')"
  shows "size_m v' = size_m v + 1"
    and "elems v' = take p (elems v) @ [constructed args] @ drop p (elems v)"
    and "Vector_inv v'"
    and "capacity_m (data_m v') =
           (if size_m v = capacity_m (data_m v) then (if 0 < size_m v then size_m v * 2 else 1)
            else capacity_m (data_m v))"
proof -
  let ?b = "buffer_m (data_m v)" and ?s = "size_m v" and ?x = "constructed args"
  let ?ns = "if 0 < size_m v then size_m v * 2 else 1"
  have "\<exists>b'. buffer_m (data_m v') = b' \<and> capacity_m (data_m v') = length b' \<and>
          size_m v' = ?s + 1 \<and> inserted ?b ?s p ?x b' \<and>
          length b' = (if ?s = capacity_m (data_m v) then ?ns else capacity_m (data_m v))"
  proof (cases "?s = capacity_m (data_m v)")
    case True
    have ns: "?s < ?ns" by simp
    from r p True obtain nd w1 where a: "RawMemory_sized T ?ns w = Returned (nd, w1)"
      by (auto simp: Emplace_def Capacity_def split: result.splits)
    with RawMemory_sized_cases [of T ?ns w]
    have nd: "nd = \<lparr>buffer_m = replicate ?ns None, capacity_m = ?ns\<rparr>"
      by auto
    have "\<exists>v1. v' = v1\<lparr>size_m := size_m v1 + 1\<rparr> \<and>
           (\<exists>b'. v1 = v\<lparr>data_m := (data_m v)\<lparr>buffer_m := b', capacity_m := ?ns\<rparr>\<rparr> \<and>
             length b' = ?ns \<and> inserted ?b ?s p ?x b')"
    proof (cases "nothrow_move_constructible T \<or> \<not> copy_constructible T")
      case m: True
      from r p True a m have
        "Emplace_finish p (grow_by_move T p v nd ((buffer_m nd)[p := Some ?x])
           (advance T (ctor_event args) w1)) = Returned (v', w')"
        by (simp add: Emplace_def Capacity_def split: if_splits)
      from Emplace_finish_Returned [OF this] obtain v1 where
        g: "grow_by_move T p v \<lparr>buffer_m = replicate ?ns None, capacity_m = ?ns\<rparr>
          ((replicate ?ns None)[p := Some ?x]) (advance T (ctor_event args) w1) = Returned (v1, w')"
        and v': "v' = v1\<lparr>size_m := size_m v1 + 1\<rparr>"
        by (auto simp: nd)
      from grow_by_move_Returned [OF inv True p ns g] v' show ?thesis by blast
    next
      case m: False
      from r p True a m have
        "Emplace_finish p (grow_by_copy T p v nd ((buffer_m nd)[p := Some ?x])
           (advance T (ctor_event args) w1)) = Returned (v', w')"
        by (simp add: Emplace_def Capacity_def split: if_splits)
      from Emplace_finish_Returned [OF this] obtain v1 where
        g: "grow_by_copy T p v \<lparr>buffer_m = replicate ?ns None, capacity_m = ?ns\<rparr>
          ((replicate ?ns None)[p := Some ?x]) (advance T (ctor_event args) w1) = Returned (v1, w')"
        and v': "v' = v1\<lparr>size_m := size_m v1 + 1\<rparr>"
        by (auto simp: nd)
      from grow_by_copy_Returned [OF inv True p ns g] v' show ?thesis by blast
    qed
    with True show ?thesis
      by auto
  next
    case False
    with inv have c: "?s < capacity_m (data_m v)" and lb: "length ?b = capacity_m (data_m v)"
      by (simp_all add: Vector_inv_def)
    have "\<exists>v1. v' = v1\<lparr>size_m := size_m v1 + 1\<rparr> \<and>
            (\<exists>b'. v1 = set_buffer v b' \<and> length b' = length ?b \<and> inserted ?b ?s p ?x b')"
    proof (cases "nothrow_move_constructible T \<or> \<not> copy_constructible T")
      case True
      from r p False True have
        "Emplace_finish p (EmplaceWMove T p args v w) = Returned (v', w')"
        by (simp add: Emplace_def Capacity_def split: if_splits)
      from Emplace_finish_Returned [OF this] obtain v1 where
        g: "EmplaceWMove T p args v w = Returned (v1, w')"
        and v': "v' = v1\<lparr>size_m := size_m v1 + 1\<rparr>"
        by blast
      from EmplaceWMove_Returned [OF inv p c g] v' show ?thesis by blast
    next
      case m: False
      from r p False m have
        "Emplace_finish p (EmplaceWCopy T p args v w) = Returned (v', w')"
        by (simp add: Emplace_def Capacity_def split: if_splits)
      from Emplace_finish_Returned [OF this] obtain v1 where
        g: "EmplaceWCopy T p args v w = Returned (v1, w')"
        and v': "v' = v1\<lparr>size_m := size_m v1 + 1\<rparr>"
        by blast
      from EmplaceWCopy_Returned [OF inv p c g] v' show ?thesis by blast
    qed
    then obtain v1 b' where v': "v' = v1\<lparr>size_m := size_m v1 + 1\<rparr>"
      and v1: "v1 = set_buffer v b'" and l: "length b' = length ?b"
      and i: "inserted ?b ?s p ?x b'"
      by blast
    with False lb show ?thesis
      by (auto simp: set_buffer_def)
  qed
  then obtain b' where b': "buffer_m (data_m v') = b'" "capacity_m (data_m v') = length b'"
    "size_m v' = ?s + 1" and i: "inserted ?b ?s p ?x b'"
    and l: "length b' = (if ?s = capacity_m (data_m v) then ?ns else capacity_m (data_m v))"
    by blast
  from inserted_Vector [OF inv p i b'] b' l
  show "size_m v' = size_m v + 1"
    and "elems v' = take p (elems v) @ [constructed args] @ drop p (elems v)"
    and "Vector_inv v'"
    and "capacity_m (data_m v') =
           (if size_m v = capacity_m (data_m v) then (if 0 < size_m v then size_m v * 2 else 1)
            else capacity_m (data_m v))"
    by simp_all
qed


lemma Emplace_quiet:
  assumes q: "never_throws T" and inv: "Vector_inv v" and p: "p \<le> size_m v"
  shows "\<exists>r. Emplace T p args v w = Returned r"
proof (cases "size_m v = capacity_m (data_m v)")
  case True
  let ?ns = "if 0 < size_m v then size_m v * 2 else 1"
  let ?nd = "\<lparr>buffer_m = replicate ?ns None, capacity_m = ?ns\<rparr> :: 'a RawMemory"
  let ?w1 = "advance T (Alloc ?ns) w"
  let ?w2 = "advance T (ctor_event args) ?w1"
  have ns: "size_m v < ?ns" by simp
  from q have a: "RawMemory_sized T ?ns w = Returned (?nd, ?w1)"
    by (simp add: RawMemory_sized_def Allocate_def never_throws_def)
  have "\<exists>v1 w'. (if nothrow_move_constructible T \<or> \<not> copy_constructible T
          then grow_by_move T p v ?nd ((buffer_m ?nd)[p := Some (constructed args)]) ?w2
          else grow_by_copy T p v ?nd ((buffer_m ?nd)[p := Some (constructed args)]) ?w2)
       = Returned (v1, w') \<and> capacity_m (data_m v1) = ?ns"
  proof (cases "nothrow_move_constructible T \<or> \<not> copy_constructible T")
    case m: True
    from q have "\<forall>x w. \<not> throws T (MoveConstruct x) w"
      by (simp add: never_throws_def)
    from grow_by_move_quiet [OF this inv True p ns, of "constructed args" ?w2]
    obtain v1 w' where g: "grow_by_move T p v ?nd ((replicate ?ns None)[p := Some (constructed args)]) ?w2
        = Returned (v1, w')"
      by fastforce
    from grow_by_move_Returned [OF inv True p ns g] g m show ?thesis
      by auto
  next
    case m: False
    from q have "\<forall>x w. \<not> throws T (CopyConstruct x) w"
      by (simp add: never_throws_def)
    from grow_by_copy_quiet [OF this inv True p ns, of "constructed args" ?w2]
    obtain v1 w' where g: "grow_by_copy T p v ?nd ((replicate ?ns None)[p := Some (constructed args)]) ?w2
        = Returned (v1, w')"
      by fastforce
    from grow_by_copy_Returned [OF inv True p ns g] g m show ?thesis
      by auto
  qed
  then obtain v1 w' where g: "(if nothrow_move_constructible T \<or> \<not> copy_constructible T
          then grow_by_move T p v ?nd ((buffer_m ?nd)[p := Some (constructed args)]) ?w2
          else grow_by_copy T p v ?nd ((buffer_m ?nd)[p := Some (constructed args)]) ?w2)
       = Returned (v1, w')" and c1: "capacity_m (data_m v1) = ?ns"
    by blast
  have "Emplace T p args v w = Emplace_finish p (Returned (v1, w'))"
    unfolding g [symmetric] using q p True ns a
    by (simp add: Emplace_def Capacity_def never_throws_def assert_plus_def del: One_nat_def)
  with c1 p ns show ?thesis
    by (simp add: Emplace_finish_def assert_index_def)
next
  case False
  with inv have c: "size_m v < capacity_m (data_m v)"
    by (simp add: Vector_inv_def)
  have "\<exists>v1 w'. (if nothrow_move_constructible T \<or> \<not> copy_constructible T
          then EmplaceWMove T p args v w else EmplaceWCopy T p args v w) = Returned (v1, w')
        \<and> capacity_m (data_m v1) = capacity_m (data_m v)"
  proof (cases "nothrow_move_constructible T \<or> \<not> copy_constructible T")
    case m: True
    from EmplaceWMove_quiet [OF q inv p c, of args w] obtain v1 w' where
      g: "EmplaceWMove T p args v w = Returned (v1, w')"
      by fastforce
    from EmplaceWMove_Returned [OF inv p c g] g m show ?thesis
      by (auto simp: set_buffer_def)
  next
    case m: False
    from EmplaceWCopy_quiet [OF q inv p c, of args w] obtain v1 w' where
      g: "EmplaceWCopy T p args v w = Returned (v1, w')"
      by fastforce
    from EmplaceWCopy_Returned [OF inv p c g] g m show ?thesis
      by (auto simp: set_buffer_def)
  qed
  then obtain v1 w' where g: "(if nothrow_move_constructible T \<or> \<not> copy_constructible T
          then EmplaceWMove T p args v w else EmplaceWCopy T p args v w) = Returned (v1, w')"
    and c1: "capacity_m (data_m v1) = capacity_m (data_m v)"
    by blast
  have "Emplace T p args v w = Emplace_finish p (Returned (v1, w'))"
    unfolding g [symmetric] using p False
    by (simp add: Emplace_def Capacity_def)
  with c1 p c show ?thesis
    by (simp add: Emplace_finish_def assert_index_def)
qed

section \<open>\<open>Emplace\<close>\<close>

text \<open>
  Claim C1. For every vector of size \<open>n\<close> that satisfies the invariant and every position
  \<open>i\<close> with \<open>0 \<le> i \<le> n\<close>: when \<open>Emplace\<close> at \<open>i\<close> returns, the size is \<open>n + 1\<close>, the new element
  is at index \<open>i\<close> and the other elements are in their order, before and behind it. The
  capacity tells the path: the growth path (\<open>size == capacity\<close>) doubles it, or makes it 1,
  the in-place path keeps it. When nothing throws, \<open>Emplace\<close> returns.
\<close>

theorem Emplace_inserts:
  assumes "Vector_inv v" and "i \<le> Size v"
  shows
    "(\<forall>v' w'. Emplace T i args v w = Returned (v', w') \<longrightarrow>
        Size v' = Size v + 1 \<and>
        elems v' = take i (elems v) @ [constructed args] @ drop i (elems v) \<and>
        elems v' ! i = constructed args \<and>
        Capacity v' = (if Size v = Capacity v then (if 0 < Size v then Size v * 2 else 1)
                       else Capacity v)) \<and>
     (never_throws T \<longrightarrow> (\<exists>v' w'. Emplace T i args v w = Returned (v', w')))"
proof (intro conjI impI allI)
  fix v' w' assume r: "Emplace T i args v w = Returned (v', w')"
  from assms have i: "i \<le> size_m v" by (simp add: Size_def)
  note * = Emplace_Returned [OF assms(1) i r]
  from * show "Size v' = Size v + 1"
    and "elems v' = take i (elems v) @ [constructed args] @ drop i (elems v)"
    and "Capacity v' = (if Size v = Capacity v then (if 0 < Size v then Size v * 2 else 1)
                       else Capacity v)"
    by (simp_all add: Size_def Capacity_def)
  from *(2) i assms(1) show "elems v' ! i = constructed args"
    by (simp add: nth_append)
next
  assume "never_throws T"
  from Emplace_quiet [OF this assms(1), of i args w] assms(2)
  show "\<exists>v' w'. Emplace T i args v w = Returned (v', w')"
    by (auto simp: Size_def)
qed


theorem Emplace_inserts_witness:
  "Vector_inv vec3 \<and> 1 \<le> Size vec3 \<and> never_throws quiet_type \<and>
   (\<exists>v' w'. Emplace quiet_type 1 (ByArgs 15) vec3 0 = Returned (v', w') \<and>
      Size v' = 4 \<and> elems v' = [10, 15, 20, 30] \<and> Capacity v' = 4)"
proof -
  have h: "Vector_inv vec3" "1 \<le> Size vec3"
    by (simp_all add: Vector_inv_def Size_def vec3_def)
  have q: "never_throws quiet_type"
    by (simp add: never_throws_def quiet_type_def)
  have e: "elems vec3 = [10, 20, 30]" "Size vec3 = 3" "Capacity vec3 = 4"
    by (simp_all add: elems_def Size_def Capacity_def vec3_def)
  note t = Emplace_inserts [OF h, of quiet_type "ByArgs 15" 0]
  from t q obtain v' w' where r: "Emplace quiet_type 1 (ByArgs 15) vec3 0 = Returned (v', w')"
    by blast
  with t have "Size v' = 4 \<and> elems v' = [10, 15, 20, 30] \<and> Capacity v' = 4"
    by (simp add: e)
  with h q r show ?thesis
    by blast
qed

section \<open>\<open>PushBack\<close>\<close>

lemma PushBack_all_append:
  "PushBack_all T (as @ bs) v w =
     (case PushBack_all T as v w of
        Returned (v', w') \<Rightarrow> PushBack_all T bs v' w'
      | Threw e \<Rightarrow> Threw e
      | Terminated \<Rightarrow> Terminated
      | Undefined \<Rightarrow> Undefined)"
  by (induction as arbitrary: v w) (auto split: result.splits)

lemma EmplaceBack_Returned:
  "EmplaceBack T args v w = Returned (v', w') \<Longrightarrow> Emplace T (size_m v) args v w = Returned (v', w')"
  by (auto simp: EmplaceBack_def split: if_splits result.splits)

lemma EmplaceBack_quiet:
  assumes q: "never_throws T" and inv: "Vector_inv v"
  shows "\<exists>r. EmplaceBack T args v w = Returned r"
proof -
  from Emplace_quiet [OF q inv, of "size_m v" args w] obtain v' w' where
    r: "Emplace T (size_m v) args v w = Returned (v', w')"
    by fastforce
  from Emplace_Returned [OF inv _ r] have "size_m v' = size_m v + 1" "Vector_inv v'"
    by simp_all
  then have "size_m v' \<noteq> 0 \<and> size_m v' - 1 < capacity_m (data_m v')"
    by (simp add: Vector_inv_def)
  with r inv show ?thesis
    by (simp add: EmplaceBack_def assert_plus_def assert_index_def Vector_inv_def)
qed

lemma PushBack_Returned:
  assumes inv: "Vector_inv v" and r: "PushBack T a v w = Returned (v', w')"
  shows "size_m v' = size_m v + 1" and "elems v' = elems v @ [pushed_value a]"
    and "Vector_inv v'"
    and "capacity_m (data_m v') =
           (if size_m v = capacity_m (data_m v) then grown_capacity (capacity_m (data_m v))
            else capacity_m (data_m v))"
proof -
  obtain args where e: "Emplace T (size_m v) args v w = Returned (v', w')"
    and c: "constructed args = pushed_value a"
    using r by (cases a) (auto simp: PushBack_copy_def PushBack_move_def dest: EmplaceBack_Returned)
  note * = Emplace_Returned [OF inv _ e]
  from * show "size_m v' = size_m v + 1" "Vector_inv v'"
    by simp_all
  from *(2) inv c show "elems v' = elems v @ [pushed_value a]"
    by simp
  from *(4) show "capacity_m (data_m v') =
           (if size_m v = capacity_m (data_m v) then grown_capacity (capacity_m (data_m v))
            else capacity_m (data_m v))"
    by (auto simp: grown_capacity_def)
qed

lemma PushBack_quiet:
  "never_throws T \<Longrightarrow> Vector_inv v \<Longrightarrow> \<exists>r. PushBack T a v w = Returned r"
  by (cases a) (simp_all add: PushBack_copy_def PushBack_move_def EmplaceBack_quiet del: split_paired_Ex)

lemma Vector_default_inv: "Vector_inv Vector_default"
  by (simp add: Vector_inv_def Vector_default_def RawMemory_default_def)

lemma PushBack_all_Returned:
  "PushBack_all T as Vector_default w = Returned (v', w') \<Longrightarrow>
   Vector_inv v' \<and> size_m v' = length as \<and> elems v' = map pushed_value as \<and>
   capacity_m (data_m v') = doubling_from_one (length as)"
proof (induction as arbitrary: v' w' rule: rev_induct)
  case Nil
  then show ?case
    by (auto simp: Vector_default_inv) (simp_all add: Vector_default_def RawMemory_default_def elems_def)
next
  case (snoc a as)
  from snoc.prems obtain v1 w1 where
    1: "PushBack_all T as Vector_default w = Returned (v1, w1)"
    and 2: "PushBack T a v1 w1 = Returned (v', w')"
    by (auto simp: PushBack_all_append split: result.splits)
  from snoc.IH [OF 1] have inv: "Vector_inv v1" and s: "size_m v1 = length as"
    and e: "elems v1 = map pushed_value as"
    and c: "capacity_m (data_m v1) = doubling_from_one (length as)"
    by simp_all
  from PushBack_Returned [OF inv 2] s e c show ?case
    by simp
qed

lemma PushBack_all_quiet:
  assumes q: "never_throws T"
  shows "\<exists>r. PushBack_all T as Vector_default w = Returned r"
proof (induction as rule: rev_induct)
  case Nil
  show ?case by simp
next
  case (snoc a as)
  then obtain v1 w1 where 1: "PushBack_all T as Vector_default w = Returned (v1, w1)"
    by fastforce
  from PushBack_all_Returned [OF 1] have "Vector_inv v1" by simp
  from PushBack_quiet [OF q this, of a w1] obtain v2 w2 where
    "PushBack T a v1 w1 = Returned (v2, w2)"
    by fastforce
  with 1 show ?case
    by (simp add: PushBack_all_append)
qed

lemma doubling_from_one_ge: "n \<le> doubling_from_one n"
  by (induction n) (auto simp: grown_capacity_def)

lemma doubling_from_one_power: "0 < n \<Longrightarrow> \<exists>k. doubling_from_one n = 2 ^ k"
proof (induction n)
  case 0
  then show ?case by simp
next
  case (Suc n)
  show ?case
  proof (cases "n = 0")
    case True
    then have "doubling_from_one (Suc n) = 2 ^ 0"
      by (simp add: grown_capacity_def)
    then show ?thesis by blast
  next
    case False
    with Suc.IH obtain k where k: "doubling_from_one n = 2 ^ k" by auto
    show ?thesis
    proof (cases "n = doubling_from_one n")
      case True
      with k have "doubling_from_one (Suc n) = 2 ^ (Suc k)"
        by (simp add: grown_capacity_def max_def)
      then show ?thesis by blast
    next
      case False
      with k show ?thesis by simp
    qed
  qed
qed

text \<open>
  Claim C4. For every sequence of \<open>PushBack\<close> calls on an empty vector that all return:
  the size is the number of calls, the elements are the pushed values in the order of
  the calls, and the capacity is the one of the doubling-from-one policy,
  \<open>doubling_from_one\<close> of the number of calls. That function starts at 0, never decreases,
  changes only to \<open>max(1, 2 \<times> old)\<close>, is at least the number of elements and is a power of
  two from the first call on (0, 1, 2, 4, 8, ...). The calls all return when nothing throws.
\<close>

theorem PushBack_sequence:
  "(\<forall>v' w'. PushBack_all T as Vector_default w = Returned (v', w') \<longrightarrow>
      Size v' = length as \<and> elems v' = map pushed_value as \<and>
      Capacity v' = doubling_from_one (length as)) \<and>
   (never_throws T \<longrightarrow> (\<exists>v' w'. PushBack_all T as Vector_default w = Returned (v', w'))) \<and>
   doubling_from_one 0 = 0 \<and>
   (\<forall>n. doubling_from_one n \<le> doubling_from_one (Suc n) \<and>
        (doubling_from_one (Suc n) = doubling_from_one n \<or>
         doubling_from_one (Suc n) = max 1 (2 * doubling_from_one n)) \<and>
        n \<le> doubling_from_one n \<and>
        (0 < n \<longrightarrow> (\<exists>k. doubling_from_one n = 2 ^ k)))"
proof (intro conjI allI impI)
  fix v' w' assume "PushBack_all T as Vector_default w = Returned (v', w')"
  from PushBack_all_Returned [OF this]
  show "Size v' = length as" "elems v' = map pushed_value as"
    "Capacity v' = doubling_from_one (length as)"
    by (simp_all add: Size_def Capacity_def)
next
  assume "never_throws T"
  from PushBack_all_quiet [OF this, of as w]
  show "\<exists>v' w'. PushBack_all T as Vector_default w = Returned (v', w')"
    by fastforce
next
  fix n
  show "doubling_from_one n \<le> doubling_from_one (Suc n)"
    by (auto simp: grown_capacity_def)
  show "doubling_from_one (Suc n) = doubling_from_one n \<or>
         doubling_from_one (Suc n) = max 1 (2 * doubling_from_one n)"
    by (simp add: grown_capacity_def)
  show "n \<le> doubling_from_one n"
    by (rule doubling_from_one_ge)
  show "\<exists>k. doubling_from_one n = 2 ^ k" if "0 < n"
    using that by (rule doubling_from_one_power)
qed simp

theorem PushBack_sequence_witness:
  "never_throws quiet_type \<and> (0::nat) < 3 \<and>
   (\<exists>v' w'. PushBack_all quiet_type [Lvalue 0, Rvalue 1, Lvalue 2] Vector_default 0 = Returned (v', w') \<and>
      Size v' = 3 \<and> elems v' = [0, 1, 2] \<and> Capacity v' = 4) \<and>
   (\<exists>k. doubling_from_one 3 = 2 ^ k)"
proof -
  let ?as = "[Lvalue 0, Rvalue 1, Lvalue 2] :: int pushed list"
  have q: "never_throws quiet_type"
    by (simp add: never_throws_def quiet_type_def)
  have d: "doubling_from_one 3 = 4"
    by code_simp
  have l: "length ?as = 3" "map pushed_value ?as = [0, 1, 2]"
    by simp_all
  note t = PushBack_sequence [of quiet_type ?as 0]
  from t q obtain v' w' where
    r: "PushBack_all quiet_type ?as Vector_default 0 = Returned (v', w')"
    by blast
  with t have "Size v' = length ?as \<and> elems v' = map pushed_value ?as \<and>
      Capacity v' = doubling_from_one (length ?as)"
    by blast
  then have 1: "Size v' = 3 \<and> elems v' = [0, 1, 2] \<and> Capacity v' = 4"
    by (simp only: l d)
  from t have "(0::nat) < 3 \<longrightarrow> (\<exists>k. doubling_from_one 3 = 2 ^ k)"
    by blast
  then have 2: "\<exists>k. doubling_from_one 3 = 2 ^ k"
    by simp
  have z: "(0::nat) < 3"
    by simp
  from q z r 1 2 show ?thesis
    by blast
qed

section \<open>\<open>Erase\<close>\<close>

lemma move_loop_shift:
  "move_loop T b (d + 1) n d w = Returned (b', w') \<Longrightarrow>
   length b' = length b \<and>
   (\<forall>k < length b. b' ! k =
      (if d \<le> k \<and> k < d + n then b ! (k + 1)
       else if k = d + n \<and> 0 < n then Some (moved_from T (the (b ! (d + n))))
       else b ! k))"
proof (induction n arbitrary: b d w)
  case 0
  then show ?case by auto
next
  case (Suc n)
  from Suc.prems obtain x y where x: "live_at b (d + 1) = Some x"
    and y: "live_at b d = Some y"
    by (auto split: option.splits if_splits)
  define b1 where "b1 = b[d + 1 := Some (moved_from T x), d := Some x]"
  from Suc.prems x y have
    rec: "move_loop T b1 (d + 1 + 1) n (d + 1) (advance T (MoveAssign x) w) = Returned (b', w')"
    by (auto simp: b1_def split: if_splits)
  from x y have lt: "d + 1 < length b" and bx: "b ! (d + 1) = Some x"
    by (simp_all add: live_at_iff)
  from Suc.IH [OF rec] have len: "length b' = length b"
    and nth: "\<And>k. k < length b \<Longrightarrow> b' ! k =
      (if d + 1 \<le> k \<and> k < d + 1 + n then b1 ! (k + 1)
       else if k = d + 1 + n \<and> 0 < n then Some (moved_from T (the (b1 ! (d + 1 + n))))
       else b1 ! k)"
    by (simp_all add: b1_def)
  have "b' ! k =
      (if d \<le> k \<and> k < d + Suc n then b ! (k + 1)
       else if k = d + Suc n \<and> 0 < Suc n then Some (moved_from T (the (b ! (d + Suc n))))
       else b ! k)" if k: "k < length b" for k
  proof -
    consider "k < d" | "k = d" | "d < k" "k < d + 1 + n" | "k = d + 1 + n"
      | "d + 1 + n < k"
      by linarith
    then show ?thesis
    proof cases
      case 1
      with k lt show ?thesis by (simp add: nth b1_def)
    next
      case 2
      with k lt bx show ?thesis by (simp add: nth b1_def)
    next
      case 3
      with k lt show ?thesis by (simp add: nth b1_def)
    next
      case 4
      with k lt bx show ?thesis by (cases "n = 0") (simp_all add: nth b1_def)
    next
      case 5
      with k lt show ?thesis by (simp add: nth b1_def)
    qed
  qed
  with len show ?case by blast
qed

lemma move_loop_quiet:
  assumes "\<forall>x w. \<not> throws T (MoveAssign x) w"
  shows "live_range b d (n + 1) \<Longrightarrow> \<exists>r. move_loop T b (d + 1) n d w = Returned r"
proof (induction n arbitrary: b d w)
  case 0
  then show ?case by simp
next
  case (Suc n)
  from Suc.prems have "d < length b \<and> b ! d \<noteq> None" "d + 1 < length b \<and> b ! (d + 1) \<noteq> None"
    by (auto simp: live_range_def)
  then obtain x y where x: "live_at b (d + 1) = Some x" and y: "live_at b d = Some y"
    by (auto simp: live_at_def)
  have "live_range b (d + 1) (n + 1)"
    using Suc.prems by (auto simp: live_range_def)
  then have "live_range (b[d + 1 := Some (moved_from T x), d := Some x]) (d + 1) (n + 1)"
    by (intro live_range_update_other)
  from Suc.IH [OF this, of "advance T (MoveAssign x) w"] x y assms show ?case
    by simp
qed

lemma elems_set_buffer:
  "elems ((set_buffer v b')\<lparr>size_m := n\<rparr>) = map the (take n b')"
  by (simp add: elems_def set_buffer_def)

lemma erased_Vector:
  assumes inv: "Vector_inv v" and p: "p < size_m v"
    and e: "erased (buffer_m (data_m v)) (size_m v) p b'"
  shows "elems ((set_buffer v b')\<lparr>size_m := size_m v - 1\<rparr>) = take p (elems v) @ drop (Suc p) (elems v)"
    and "Vector_inv ((set_buffer v b')\<lparr>size_m := size_m v - 1\<rparr>)"
proof -
  let ?b = "buffer_m (data_m v)" and ?s = "size_m v"
  let ?v' = "(set_buffer v b')\<lparr>size_m := size_m v - 1\<rparr>"
  from inv have lb: "length ?b = capacity_m (data_m v)" and sc: "?s \<le> capacity_m (data_m v)"
    by (simp_all add: Vector_inv_def)
  from e have len: "length b' = length ?b"
    and n: "\<And>k. k < length ?b \<Longrightarrow> b' ! k =
        (if k < p then ?b ! k else if k < ?s - 1 then ?b ! (k + 1)
         else if k = ?s - 1 then None else ?b ! k)"
    by (simp_all add: erased_def)
  have live: "b' ! k = Some ((take p (elems v) @ drop (Suc p) (elems v)) ! k)" if "k < ?s - 1" for k
  proof (cases "k < p")
    case True
    with that p sc lb inv show ?thesis
      by (simp add: n nth_append Vector_inv_nth)
  next
    case False
    with that have "k + 1 < ?s" by simp
    from Vector_inv_nth [OF inv this] False that p sc lb inv show ?thesis
      by (simp add: n nth_append min_def)
  qed
  show "elems ?v' = take p (elems v) @ drop (Suc p) (elems v)"
  proof (rule nth_equalityI)
    show "length (elems ?v') = length (take p (elems v) @ drop (Suc p) (elems v))"
      using inv p sc lb len by (simp add: elems_set_buffer)
  next
    fix k assume "k < length (elems ?v')"
    then have "k < ?s - 1" by (simp add: elems_set_buffer)
    with live [OF this] len lb sc show "elems ?v' ! k = (take p (elems v) @ drop (Suc p) (elems v)) ! k"
      by (simp add: elems_set_buffer)
  qed
  show "Vector_inv ?v'"
    unfolding Vector_inv_iff
  proof (intro conjI)
    show "live_range (buffer_m (data_m ?v')) 0 (size_m ?v')"
      unfolding live_range_def using live len lb sc by (auto simp: set_buffer_def)
    show "raw_range (buffer_m (data_m ?v')) (size_m ?v')
            (capacity_m (data_m ?v') - size_m ?v')"
      unfolding raw_range_def using n len lb sc p Vector_inv_raw [OF inv]
      by (auto simp: set_buffer_def)
  qed (use len lb sc in \<open>simp_all add: set_buffer_def\<close>)
qed

lemma Erase_Returned:
  assumes inv: "Vector_inv v" and p: "p < size_m v"
    and r: "Erase T p v w = Returned (v', w')"
  shows "\<exists>b'. v' = (set_buffer v b')\<lparr>size_m := size_m v - 1\<rparr> \<and>
           erased (buffer_m (data_m v)) (size_m v) p b'"
proof -
  let ?b = "buffer_m (data_m v)" and ?s = "size_m v"
  from inv have lb: "length ?b = capacity_m (data_m v)" and sc: "?s \<le> capacity_m (data_m v)"
    by (simp_all add: Vector_inv_def)
  from r p obtain b1 b2 where
    m: "move_range T ?b (p + 1) ?s p w = Returned (b1, w')"
    and d: "destroy_n b1 (?s - 1) 1 = Some b2"
    and v': "v' = (set_buffer v b2)\<lparr>size_m := ?s - 1\<rparr>"
    by (auto simp: Erase_def split: if_splits result.splits option.splits)
  from m p have "move_loop T ?b (p + 1) (?s - (p + 1)) p w = Returned (b1, w')"
    by (simp add: move_range_def split: if_splits)
  from move_loop_shift [OF this] have l1: "length b1 = length ?b"
    and n1: "\<And>k. k < length ?b \<Longrightarrow> b1 ! k =
      (if p \<le> k \<and> k < p + (?s - (p + 1)) then ?b ! (k + 1)
       else if k = p + (?s - (p + 1)) \<and> 0 < ?s - (p + 1)
         then Some (moved_from T (the (?b ! (p + (?s - (p + 1))))))
       else ?b ! k)"
    by simp_all
  from d have b2: "b2 = b1[?s - 1 := None]"
    by (auto split: option.splits)
  have "erased ?b ?s p b2"
    unfolding erased_def
  proof (intro conjI allI impI)
    show "length b2 = length ?b" by (simp add: b2 l1)
  next
    fix k assume k: "k < length ?b"
    consider "k < p" | "p \<le> k" "k < ?s - 1" | "k = ?s - 1" | "?s - 1 < k"
      by linarith
    then show "b2 ! k = (if k < p then ?b ! k else if k < ?s - 1 then ?b ! (k + 1)
         else if k = ?s - 1 then None else ?b ! k)"
    proof cases
      case 1
      then have "\<not> p \<le> k" "k \<noteq> p + (?s - (p + 1))" "k \<noteq> ?s - 1"
        using p by simp_all
      with 1 k l1 show ?thesis by (simp add: b2 n1)
    next
      case 2
      then have "k < p + (?s - (p + 1))" "k \<noteq> ?s - 1" by simp_all
      with 2 k p l1 show ?thesis by (simp add: b2 n1)
    next
      case 3
      then have "\<not> k < p" using p by auto
      with 3 k l1 show ?thesis by (simp add: b2)
    next
      case 4
      then have "\<not> k < p + (?s - (p + 1))" "k \<noteq> p + (?s - (p + 1))" "\<not> k < p" "k \<noteq> ?s - 1"
        using p by simp_all
      with 4 k l1 show ?thesis by (simp add: b2 n1)
    qed
  qed
  with v' show ?thesis by blast
qed

lemma Erase_quiet:
  assumes q: "\<forall>x w. \<not> throws T (MoveAssign x) w"
    and inv: "Vector_inv v" and p: "p < size_m v"
  shows "\<exists>r. Erase T p v w = Returned r"
proof -
  let ?b = "buffer_m (data_m v)" and ?s = "size_m v"
  from inv have lb: "length ?b = capacity_m (data_m v)" and sc: "?s \<le> capacity_m (data_m v)"
    by (simp_all add: Vector_inv_def)
  have "live_range ?b p ((?s - (p + 1)) + 1)"
    using p by (intro live_range_sub [OF elems_live [OF inv]]) simp_all
  from move_loop_quiet [OF q this, of w] obtain b1 w1 where
    ml: "move_loop T ?b (p + 1) (?s - (p + 1)) p w = Returned (b1, w1)"
    by fastforce
  from move_loop_grows [OF disjI1, OF ml] have g: "grows ?b b1" .
  from grows_live_range [OF g elems_live [OF inv]] p have "live_at b1 (?s - 1) \<noteq> None"
    by (simp add: live_range_def live_at_def)
  then obtain y where "live_at b1 (?s - 1) = Some y" by auto
  with ml p sc show ?thesis
    by (simp add: Erase_def move_range_def assert_plus_def assert_index_def)
qed

text \<open>
  Claim C5. For every vector of size \<open>n \<ge> 1\<close> that satisfies the invariant and every position
  \<open>i < n\<close>: when \<open>Erase\<close> at \<open>i\<close> returns, the size is \<open>n - 1\<close>, the element at \<open>i\<close> is gone
  and the others are in their order; the capacity is unchanged and the slot \<open>n - 1\<close>, the
  last one, holds no object any more. The shift uses move assignment only: \<open>Erase\<close>
  returns whenever no move assignment throws, whatever the constructors do; and it
  never throws (an assignment that throws ends the program).
\<close>

theorem Erase_removes:
  assumes "Vector_inv v" and "i < Size v"
  shows
    "(\<forall>v' w'. Erase T i v w = Returned (v', w') \<longrightarrow>
        Size v' = Size v - 1 \<and>
        elems v' = take i (elems v) @ drop (Suc i) (elems v) \<and>
        Capacity v' = Capacity v \<and>
        live_at (buffer_m (data_m v')) (Size v - 1) = None) \<and>
     ((\<forall>x w. \<not> throws T (MoveAssign x) w) \<longrightarrow> (\<exists>v' w'. Erase T i v w = Returned (v', w'))) \<and>
     (\<forall>e. Erase T i v w \<noteq> Threw e)"
proof (intro conjI impI allI)
  from assms have i: "i < size_m v" by (simp add: Size_def)
  fix v' w' assume r: "Erase T i v w = Returned (v', w')"
  from Erase_Returned [OF assms(1) i r] obtain b' where
    v': "v' = (set_buffer v b')\<lparr>size_m := size_m v - 1\<rparr>"
    and e: "erased (buffer_m (data_m v)) (size_m v) i b'"
    by blast
  from erased_Vector [OF assms(1) i e] v'
  show "elems v' = take i (elems v) @ drop (Suc i) (elems v)"
    by simp
  from v' show "Size v' = Size v - 1" "Capacity v' = Capacity v"
    by (simp_all add: Size_def Capacity_def set_buffer_def)
  have "\<not> size_m v - 1 < i" "size_m v - 1 < length (buffer_m (data_m v))"
    using i assms(1) by (auto simp: Vector_inv_def)
  with e show "live_at (buffer_m (data_m v')) (Size v - 1) = None"
    by (simp add: v' erased_def live_at_def Size_def set_buffer_def)
next
  from assms have i: "i < size_m v" by (simp add: Size_def)
  assume "\<forall>x w. \<not> throws T (MoveAssign x) w"
  from Erase_quiet [OF this assms(1) i, of w]
  show "\<exists>v' w'. Erase T i v w = Returned (v', w')"
    by fastforce
next
  fix e show "Erase T i v w \<noteq> Threw e"
    by (simp add: Erase_def split: result.splits option.splits)
qed


theorem Erase_removes_witness:
  "Vector_inv vec3 \<and> 1 < Size vec3 \<and> (\<forall>x w. \<not> throws assign_only_type (MoveAssign x) w) \<and>
   (\<exists>v' w'. Erase assign_only_type 1 vec3 0 = Returned (v', w') \<and>
      Size v' = 2 \<and> elems v' = [10, 30] \<and> Capacity v' = 4 \<and>
      live_at (buffer_m (data_m v')) 2 = None)"
proof -
  have h: "Vector_inv vec3" "1 < Size vec3"
    by (simp_all add: Vector_inv_def Size_def vec3_def)
  have q: "\<forall>x w. \<not> throws assign_only_type (MoveAssign x) w"
    by (simp add: assign_only_type_def)
  have e: "elems vec3 = [10, 20, 30]" "Size vec3 = 3" "Capacity vec3 = 4"
    by (simp_all add: elems_def Size_def Capacity_def vec3_def)
  note t = Erase_removes [OF h, of assign_only_type 0]
  from t q obtain v' w' where r: "Erase assign_only_type 1 vec3 0 = Returned (v', w')"
    by blast
  with t have "Size v' = 2 \<and> elems v' = [10, 30] \<and> Capacity v' = 4 \<and>
      live_at (buffer_m (data_m v')) 2 = None"
    by (simp add: e)
  with h q r show ?thesis
    by blast
qed

section \<open>\<open>Reserve\<close> within the capacity\<close>

text \<open>
  Claim C9. For every vector of capacity \<open>c\<close> and every \<open>n \<le> c\<close>, \<open>Reserve(n)\<close> is a
  no-op: it returns with the object as it was (same capacity, same size, same block, so
  the same elements), and it calls nothing of the element type (the environment is as
  before).
\<close>

theorem Reserve_within_capacity:
  "n \<le> Capacity v \<Longrightarrow> Reserve T n v w = Returned (v, w)"
  by (simp add: Reserve_def Capacity_def)

theorem Reserve_within_capacity_witness:
  "3 \<le> Capacity vec3 \<and> Reserve (throwing_copy 1) 3 vec3 0 = Returned (vec3, 0)"
proof -
  have h: "3 \<le> Capacity vec3"
    by (simp add: Capacity_def vec3_def)
  from h Reserve_within_capacity [OF h] show ?thesis
    by simp
qed

section \<open>\<open>Reserve\<close> beyond the capacity\<close>





section \<open>\<open>Resize\<close>\<close>




lemma uninitialized_value_construct_loop_Threw:
  "uninitialized_value_construct_loop T b first current n w = Threw (b', w') \<Longrightarrow>
   first \<le> current \<Longrightarrow> live_range b first (current - first) \<Longrightarrow>
   raw_range b current n \<Longrightarrow>
   b' = overwrite b first (replicate (current - first) None)"
proof (induction n arbitrary: b current w)
  case 0
  then show ?case by simp
next
  case (Suc n)
  from Suc.prems(4) have lt: "current < length b" and raw: "b ! current = None"
    and rr: "raw_range b (Suc current) n"
    by (simp_all add: raw_range_Suc)
  show ?case
  proof (cases "throws T ValueConstruct w")
    case True
    with Suc.prems(1) lt destroy_n_live [OF Suc.prems(3)] show ?thesis
      by simp
  next
    case False
    with Suc.prems(1) lt have
      rec: "uninitialized_value_construct_loop T (b[current := Some (value_initialized T)])
              first (Suc current) n (advance T ValueConstruct w) = Threw (b', w')"
      by simp
    have 2: "first \<le> Suc current" using Suc.prems(2) by simp
    note 3 = cleanup_step [OF Suc.prems(2) lt Suc.prems(3)]
    note 4 = raw_range_update_before [OF rr]
    from Suc.IH [OF rec 2 3 4] show ?thesis
      by (simp add: overwrite_raw_absorb [OF Suc.prems(2) lt raw])
  qed
qed











section \<open>Copy assignment\<close>

lemma Vector_copy_Returned:
  assumes inv: "Vector_inv other" and r: "Vector_copy T other w = Returned (c, w')"
  shows "c = \<lparr>data_m = \<lparr>buffer_m = take (size_m other) (buffer_m (data_m other)),
                         capacity_m = size_m other\<rparr>, size_m = size_m other\<rparr>"
proof -
  let ?n = "size_m other" and ?b = "buffer_m (data_m other)"
  from inv have lb: "?n \<le> length ?b"
    by (simp add: Vector_inv_def)
  from r RawMemory_sized_cases [of T ?n w] obtain w1 b where
    u: "uninitialized_copy_n T ?b 0 ?n (replicate ?n None) 0 w1 = Returned (b, w')"
    and c: "c = \<lparr>data_m = \<lparr>buffer_m = b, capacity_m = ?n\<rparr>, size_m = ?n\<rparr>"
    by (auto simp: Vector_copy_def split: result.splits)
  from uninitialized_copy_loop_Returned [OF u [unfolded uninitialized_copy_n_def]] lb
  have "b = take ?n ?b"
    by (simp add: overwrite_def)
  with c show ?thesis by simp
qed

lemma Vector_copy_outcome:
  assumes inv: "Vector_inv other" and n: "size_m other \<noteq> 0"
  shows "if throws T (Alloc (size_m other)) w \<or>
            copies_fail T (elems other) (advance T (Alloc (size_m other)) w)
         then \<exists>w'. Vector_copy T other w = Threw w'
         else \<exists>c w'. Vector_copy T other w = Returned (c, w')"
proof (cases "throws T (Alloc (size_m other)) w")
  case True
  with n show ?thesis
    by (simp add: Vector_copy_def RawMemory_sized_def Allocate_def)
next
  case False
  let ?n = "size_m other" and ?b = "buffer_m (data_m other)"
  let ?w1 = "advance T (Alloc ?n) w"
  from False n have a: "RawMemory_sized T ?n w =
      Returned (\<lparr>buffer_m = replicate ?n None, capacity_m = ?n\<rparr>, ?w1)"
    by (simp add: RawMemory_sized_def Allocate_def)
  have e: "map the (take ?n ?b) = elems other"
    by (simp add: elems_def)
  have "0 + ?n \<le> length (replicate ?n (None :: 'a option))"
    by simp
  from uninitialized_copy_loop_outcome [OF elems_live [OF inv] this, of 0 T ?w1]
  have o: "if copies_fail T (elems other) ?w1
       then \<exists>dst' w'. uninitialized_copy_n T ?b 0 ?n (replicate ?n None) 0 ?w1 = Threw (dst', w')
       else \<exists>dst' w'. uninitialized_copy_n T ?b 0 ?n (replicate ?n None) 0 ?w1 = Returned (dst', w')"
    by (simp add: e uninitialized_copy_n_def)
  show ?thesis
  proof (cases "copies_fail T (elems other) ?w1")
    case True
    with o False a show ?thesis
      by (auto simp: Vector_copy_def)
  next
    case f: False
    with o False a show ?thesis
      by (auto simp: Vector_copy_def)
  qed
qed

lemma copy_assign_swap_Returned:
  assumes it: "Vector_inv this" and ir: "Vector_inv rhs"
    and c: "capacity_m (data_m this) < size_m rhs"
    and r: "copy_assign T this rhs w = Returned (v', w')"
  shows "v' = \<lparr>data_m = (data_m this)\<lparr>buffer_m := take (size_m rhs) (buffer_m (data_m rhs)),
                         capacity_m := size_m rhs\<rparr>, size_m = size_m rhs\<rparr>"
proof -
  from r c obtain rhs_copy where vc: "Vector_copy T rhs w = Returned (rhs_copy, w')"
    and v': "v' = fst (Swap this rhs_copy)"
    by (auto simp: copy_assign_def split: result.splits prod.splits option.splits)
  from Vector_copy_Returned [OF ir vc] v' show ?thesis
    by (simp add: Swap_def RawMemory_Swap_def)
qed

lemma copy_assign_swap_Threw:
  "capacity_m (data_m this) < size_m rhs \<Longrightarrow>
   copy_assign T this rhs w = Threw (v', w') \<Longrightarrow> v' = this"
  by (auto simp: copy_assign_def split: result.splits prod.splits option.splits)

lemma copy_assign_swap_outcome:
  assumes it: "Vector_inv this" and ir: "Vector_inv rhs"
    and c: "capacity_m (data_m this) < size_m rhs"
  shows "if throws T (Alloc (size_m rhs)) w \<or>
            copies_fail T (elems rhs) (advance T (Alloc (size_m rhs)) w)
         then \<exists>w'. copy_assign T this rhs w = Threw (this, w')
         else \<exists>v' w'. copy_assign T this rhs w = Returned (v', w')"
proof -
  from c have n: "size_m rhs \<noteq> 0" by simp
  note o = Vector_copy_outcome [OF ir n, of T w]
  have d: "\<exists>f. Vector_dtor (snd (Swap this rhs_copy)) = Some f" for rhs_copy :: "'a Vector"
    using destroy_n_live [OF elems_live [OF it]]
    by (simp add: Vector_dtor_def Swap_def RawMemory_Swap_def)
  show ?thesis
  proof (cases "throws T (Alloc (size_m rhs)) w \<or>
            copies_fail T (elems rhs) (advance T (Alloc (size_m rhs)) w)")
    case True
    with o obtain w' where "Vector_copy T rhs w = Threw w'" by auto
    with True c show ?thesis
      by (auto simp: copy_assign_def)
  next
    case False
    with o obtain rc w' where vc: "Vector_copy T rhs w = Returned (rc, w')" by auto
    from d [of rc] obtain f where "Vector_dtor (snd (Swap this rc)) = Some f" by blast
    with vc False c show ?thesis
      by (auto simp: copy_assign_def split: prod.splits)
  qed
qed

text \<open>
  Claim C8. For two different vectors that satisfy the invariant, with \<open>rhs.Size()\<close> greater
  than \<open>this->Capacity()\<close>: copy assignment builds a duplicate of \<open>rhs\<close> and swaps it in. When
  it returns, the assigned-to object has the elements and the size of \<open>rhs\<close> (and the
  duplicate's capacity, the size of \<open>rhs\<close>), and no other object has changed. When it
  throws, no object has changed: the strong guarantee. It throws exactly when the
  allocation or one of the duplications throws.
\<close>

theorem copy_assignment_beyond_capacity:
  assumes "this \<noteq> rhs" and "Vector_inv (s this)" and "Vector_inv (s rhs)"
    and "Capacity (s this) < Size (s rhs)"
  shows
    "(\<forall>s' w'. Vector_copy_assign T this rhs s w = Returned (s', w') \<longrightarrow>
        elems (s' this) = elems (s rhs) \<and> Size (s' this) = Size (s rhs) \<and>
        Capacity (s' this) = Size (s rhs) \<and> (\<forall>a. a \<noteq> this \<longrightarrow> s' a = s a)) \<and>
     (\<forall>s' w'. Vector_copy_assign T this rhs s w = Threw (s', w') \<longrightarrow> s' = s) \<and>
     (if throws T (Alloc (Size (s rhs))) w \<or>
         copies_fail T (elems (s rhs)) (advance T (Alloc (Size (s rhs))) w)
      then \<exists>w'. Vector_copy_assign T this rhs s w = Threw (s, w')
      else \<exists>s' w'. Vector_copy_assign T this rhs s w = Returned (s', w'))"
proof (intro conjI impI allI)
  from assms(4) have c: "capacity_m (data_m (s this)) < size_m (s rhs)"
    by (simp add: Capacity_def Size_def)
  {
    fix s' w' assume r: "Vector_copy_assign T this rhs s w = Returned (s', w')"
    with assms(1) obtain v' where ca: "copy_assign T (s this) (s rhs) w = Returned (v', w')"
      and s': "s' = s(this := v')"
      by (auto simp: Vector_copy_assign_def split: result.splits)
    note v' = copy_assign_swap_Returned [OF assms(2,3) c ca]
    from assms(3) have "size_m (s rhs) \<le> length (buffer_m (data_m (s rhs)))"
      by (simp add: Vector_inv_def)
    then show "elems (s' this) = elems (s rhs)"
      by (simp add: s' v' elems_def)
    show "Size (s' this) = Size (s rhs)" "Capacity (s' this) = Size (s rhs)"
      by (simp_all add: s' v' Size_def Capacity_def)
    fix a assume "a \<noteq> this"
    then show "s' a = s a" by (simp add: s')
  }
  {
    fix s' w' assume r: "Vector_copy_assign T this rhs s w = Threw (s', w')"
    with assms(1) obtain v' where ca: "copy_assign T (s this) (s rhs) w = Threw (v', w')"
      and s': "s' = s(this := v')"
      by (auto simp: Vector_copy_assign_def split: result.splits)
    from copy_assign_swap_Threw [OF c ca] s' show "s' = s"
      by simp
  }
  from copy_assign_swap_outcome [OF assms(2,3) c, of T w] assms(1)
  show "if throws T (Alloc (Size (s rhs))) w \<or>
         copies_fail T (elems (s rhs)) (advance T (Alloc (Size (s rhs))) w)
      then \<exists>w'. Vector_copy_assign T this rhs s w = Threw (s, w')
      else \<exists>s' w'. Vector_copy_assign T this rhs s w = Returned (s', w')"
    by (auto simp: Vector_copy_assign_def Size_def)
qed


theorem copy_assignment_beyond_capacity_witness:
  "(1::nat) \<noteq> 0 \<and> Vector_inv (store01 1) \<and> Vector_inv (store01 0) \<and>
   Capacity (store01 1) < Size (store01 0) \<and>
   copies_fail (throwing_copy 2) (elems (store01 0)) 0 \<and>
   (\<exists>w'. Vector_copy_assign (throwing_copy 2) 1 0 store01 0 = Threw (store01, w'))"
proof -
  have n: "(1::nat) \<noteq> 0"
    by simp
  have h: "Vector_inv (store01 1)" "Vector_inv (store01 0)"
    "Capacity (store01 1) < Size (store01 0)"
    by (simp_all add: store01_def Vector_inv_def Capacity_def Size_def vec3_def vec1_def)
  have c: "copies_fail (throwing_copy 2) (elems (store01 0)) 0"
    by (simp add: store01_def elems_def vec3_def throwing_copy_def)
  have a: "advance (throwing_copy 2) (Alloc (Size (store01 0))) 0 = 0"
    by (simp add: throwing_copy_def)
  from copy_assignment_beyond_capacity [OF n h, of "throwing_copy 2" 0] c a
  have "\<exists>w'. Vector_copy_assign (throwing_copy 2) 1 0 store01 0 = Threw (store01, w')"
    by simp
  with n h c show ?thesis
    by blast
qed

section \<open>Transfer of ownership\<close>

lemma RawMemory_move_assign_distinct:
  "this \<noteq> rhs \<Longrightarrow>
   RawMemory_move_assign this rhs s =
     s(this := (s this)\<lparr>data_m := (data_m (s this))
                  \<lparr>buffer_m := buffer_m (data_m (s rhs)),
                   capacity_m := capacity_m (data_m (s rhs))\<rparr>\<rparr>,
       rhs := (s rhs)\<lparr>data_m := (data_m (s rhs))\<lparr>buffer_m := [], capacity_m := 0\<rparr>\<rparr>)"
  by (simp add: RawMemory_move_assign_def store_buffer_def store_capacity_def fun_eq_iff)

lemma Vector_move_assign_distinct:
  assumes "this \<noteq> rhs"
  shows "Vector_move_assign this rhs s this = s rhs"
    and "Vector_move_assign this rhs s rhs = Vector_default"
    and "a \<noteq> this \<Longrightarrow> a \<noteq> rhs \<Longrightarrow> Vector_move_assign this rhs s a = s a"
  using assms
  by (simp_all add: Vector_move_assign_def RawMemory_move_assign_distinct store_size_def
      Vector_default_def RawMemory_default_def)

lemma Vector_move_assign_self:
  "Vector_move_assign this this s = s(this := (s this)\<lparr>size_m := 0\<rparr>)"
  by (simp add: Vector_move_assign_def RawMemory_move_assign_def store_size_def)

lemma Vector_move_eq: "Vector_move other = (other, Vector_default)"
  by (simp add: Vector_move_def RawMemory_move_def Vector_default_def RawMemory_default_def)

text \<open>
  Claim C7. Transferring ownership from a vector \<open>A\<close> to a vector \<open>B\<close> leaves \<open>A\<close> with
  \<open>Size() == 0\<close> and gives \<open>B\<close> the elements and the capacity \<open>A\<close> had. For the move
  constructor \<open>B\<close> is the new object; for move assignment \<open>A\<close> and \<open>B\<close> are two different
  objects of the store (\<open>rhs\<close> and \<open>this\<close>).
\<close>

theorem transfer_of_ownership:
  "(\<forall>B A'. Vector_move A = (B, A') \<longrightarrow>
      Size A' = 0 \<and> elems B = elems A \<and> Capacity B = Capacity A) \<and>
   (this \<noteq> rhs \<longrightarrow>
      Size (Vector_move_assign this rhs s rhs) = 0 \<and>
      elems (Vector_move_assign this rhs s this) = elems (s rhs) \<and>
      Capacity (Vector_move_assign this rhs s this) = Capacity (s rhs))"
  by (simp add: Vector_move_eq Vector_move_assign_distinct Size_def Vector_default_def)

theorem transfer_of_ownership_witness:
  "Vector_move vec3 = (vec3, Vector_default) \<and> (1::nat) \<noteq> 0 \<and>
   Size (Vector_move_assign 1 0 store01 0) = 0 \<and>
   elems (Vector_move_assign 1 0 store01 1) = [10, 20, 30] \<and>
   Capacity (Vector_move_assign 1 0 store01 1) = 4"
proof -
  have e: "elems (store01 0) = [10, 20, 30]" "Capacity (store01 0) = 4"
    by (simp_all add: store01_def vec3_def elems_def Capacity_def)
  have n: "(1::nat) \<noteq> 0"
    by simp
  from transfer_of_ownership [of vec3 1 0 store01] n e show ?thesis
    by (simp add: Vector_move_eq)
qed

section \<open>Move assignment to itself\<close>

text \<open>
  Claim C10. For every vector \<open>v\<close>, the self-move-assignment \<open>v = std::move(v)\<close> leaves \<open>v\<close>
  with \<open>Size() == 0\<close> and its capacity unchanged; no element is observable any more, and
  the block still holds what it held (nothing was destroyed).
\<close>

theorem self_move_assignment:
  "Size (Vector_move_assign a a s a) = 0 \<and>
   Capacity (Vector_move_assign a a s a) = Capacity (s a) \<and>
   elems (Vector_move_assign a a s a) = [] \<and>
   buffer_m (data_m (Vector_move_assign a a s a)) = buffer_m (data_m (s a)) \<and>
   (\<forall>index. Vector_index (Vector_move_assign a a s a) index = None)"
  by (simp add: Vector_move_assign_self Size_def Capacity_def elems_def Vector_index_def)

theorem self_move_assignment_witness:
  "Size (Vector_move_assign 0 0 store01 0) = 0 \<and>
   Capacity (Vector_move_assign 0 0 store01 0) = 4 \<and>
   elems (Vector_move_assign 0 0 store01 0) = [] \<and>
   buffer_m (data_m (Vector_move_assign 0 0 store01 0)) = [Some 10, Some 20, Some 30, None]"
  using self_move_assignment [of 0 store01]
  by (simp add: store01_def vec3_def Capacity_def)

section \<open>The invariant\<close>

lemma reuse_throw_example:
  "copy_assign (throwing_copy 2) vec1_cap4 vec3 0 =
     Threw (\<lparr>data_m = \<lparr>buffer_m = [Some 10, Some 20, None, None], capacity_m = 4\<rparr>,
              size_m = 1\<rparr>, 2)"
  by (simp add: copy_assign_def vec1_cap4_def vec3_def throwing_copy_def Vector_index_def
      assert_index_def assert_plus_def live_at_def numeral_3_eq_3 numeral_2_eq_2)

text \<open>
  Claim C3. The invariant (the size does not exceed the capacity, exactly the slots
  \<open>[0, size)\<close> hold live objects) is not preserved by copy assignment. Copy assignment of
  \<open>[10, 20, 30]\<close> to the vector \<open>[7]\<close> of capacity 4, a different object, reuses the
  storage. When the second copy construction throws, the first one has left a live
  object in slot 1 while \<open>size_\<close> is still 1: the exception leaves the assigned-to object
  with a live object outside \<open>[0, size)\<close>, which no destructor will reach.
\<close>

theorem invariant_lost_when_copy_throws:
  "Vector_inv (store31 1) \<and> Vector_inv (store31 0) \<and>
   Vector_copy_assign (throwing_copy 2) 1 0 store31 0 =
     Threw (store31
              (1 := \<lparr>data_m = \<lparr>buffer_m = [Some 10, Some 20, None, None], capacity_m = 4\<rparr>,
                     size_m = 1\<rparr>), 2) \<and>
   \<not> Vector_inv (\<lparr>data_m = \<lparr>buffer_m = [Some 10, Some 20, None, None], capacity_m = 4\<rparr>,
                   size_m = 1\<rparr> :: int Vector)"
  by (simp add: Vector_copy_assign_def store31_def reuse_throw_example)
    (simp add: Vector_inv_def vec1_cap4_def vec3_def)

end
